theory Spec2Isabelle
  imports Main
begin

section \<open>The red-black tree of algo_and_ds/red_black_tree.py\<close>

text \<open>
  The Python program builds its tree out of mutable \<open>RBNode\<close> objects that refer to each
  other (children, parent) and to one shared sentinel object \<open>NIL_LEAF\<close>. Aliasing
  matters for every rotation, so the objects live in an explicit store: an object
  reference is an address, the store maps addresses to nodes, and an attribute assignment
  is an update of the store at one address. A Python name that may hold \<open>None\<close> is a
  \<open>ref\<close>; reading an attribute of \<open>None\<close> raises \<open>AttributeError\<close>.
\<close>

datatype Shades = BLACK | RED

datatype ref = PyNone | Ref nat

datatype exn = TypeError | AttributeError | NameError | NotImplementedError | ValueError

record RBNode =
  nvalue :: "int option"
  color :: Shades
  parent :: ref
  left :: ref
  right :: ref

type_synonym store = "nat \<Rightarrow> RBNode"

text \<open>
  The class attribute \<open>NIL_LEAF = RBNode(value=None, color=Shades.BLACK, parent=None)\<close>
  is created once, before any tree: it is the object at address 0, with \<open>left\<close> and
  \<open>right\<close> defaulting to \<open>None\<close>.
\<close>

definition NIL_LEAF :: nat where
  "NIL_LEAF = 0"

definition nil_node :: RBNode where
  "nil_node = \<lparr>nvalue = None, color = BLACK, parent = PyNone, left = PyNone, right = PyNone\<rparr>"

text \<open>
  The program state: the store, the next unused address (\<open>RBNode(...)\<close> allocates there),
  and the two attributes of the \<open>RedBlackTree\<close> object.
\<close>

record state =
  heap :: store
  nxt :: nat
  root :: ref
  count :: int

definition init :: state where
  "init = \<lparr>heap = (\<lambda>_. nil_node), nxt = 1, root = PyNone, count = 0\<rparr>"

subsection \<open>RBNode.__eq__\<close>

text \<open>
  \<open>==\<close> between nodes is the class's own \<open>__eq__\<close>: two nodes without a value are equal;
  otherwise value, colour and the parents' value and colour are compared. It is not
  object identity.
\<close>

definition RBNode_eq :: "store \<Rightarrow> nat \<Rightarrow> nat \<Rightarrow> bool" where
  "RBNode_eq h self other =
     (if nvalue (h self) = None \<and> nvalue (h other) = None then True
      else
        let parents_are_same =
          (case (parent (h self), parent (h other)) of
             (Ref sp, Ref op) \<Rightarrow>
                nvalue (h sp) = nvalue (h op) \<and> color (h sp) = color (h op)
           | (PyNone, PyNone) \<Rightarrow> True
           | _ \<Rightarrow> False)
        in nvalue (h self) = nvalue (h other) \<and> color (h self) = color (h other)
           \<and> parents_are_same)"

text \<open>
  \<open>a == b\<close> on names that may hold \<open>None\<close>: with \<open>None\<close> on either side of a node,
  \<open>__eq__\<close> reads an attribute of \<open>None\<close>.
\<close>

definition py_eq :: "store \<Rightarrow> ref \<Rightarrow> ref \<Rightarrow> exn + bool" where
  "py_eq h a b =
     (case (a, b) of
        (Ref x, Ref y) \<Rightarrow> Inr (RBNode_eq h x y)
      | (PyNone, PyNone) \<Rightarrow> Inr True
      | _ \<Rightarrow> Inl AttributeError)"

subsection \<open>In-order traversal\<close>

text \<open>
  \<open>RBNode.__iter__\<close> recurses through the store and does not return on a cyclic one, so
  it is a partial function: \<open>None\<close> is "does not return", \<open>Some (Inl e)\<close> is "raises e",
  \<open>Some (Inr vs)\<close> is the list of the values yielded. A yielded value is the node's
  \<open>value\<close> attribute, an int or \<open>None\<close>.
\<close>

partial_function (option) node_iter :: "store \<Rightarrow> nat \<Rightarrow> (exn + int option list) option" where
  "node_iter h self =
     (case left (h self) of
        PyNone \<Rightarrow> Some (Inl AttributeError)
      | Ref l \<Rightarrow>
          Option.bind (if nvalue (h l) \<noteq> None then node_iter h l else Some (Inr []))
            (\<lambda>lres. case lres of
               Inl e \<Rightarrow> Some (Inl e)
             | Inr ls \<Rightarrow>
                 (case right (h self) of
                    PyNone \<Rightarrow> Some (Inl AttributeError)
                  | Ref r \<Rightarrow>
                      Option.bind
                        (if nvalue (h r) \<noteq> None then node_iter h r else Some (Inr []))
                        (\<lambda>rres. case rres of
                           Inl e \<Rightarrow> Some (Inl e)
                         | Inr rs \<Rightarrow> Some (Inr (ls @ [nvalue (h self)] @ rs))))))"

text \<open>\<open>RedBlackTree.__iter__\<close>: nothing for a tree without root.\<close>

definition tree_iter :: "state \<Rightarrow> (exn + int option list) option" where
  "tree_iter s =
     (case root s of
        PyNone \<Rightarrow> Some (Inr [])
      | Ref r \<Rightarrow> node_iter (heap s) r)"

subsection \<open>_find_parent\<close>

text \<open>
  \<open>inner_find\<close> descends from the root. The side is the Python string \<open>'L'\<close> or \<open>'R'\<close>,
  or \<open>None\<close> when the value is found. \<open>value < parent.value\<close> raises \<open>TypeError\<close> when
  \<open>parent.value\<close> is \<open>None\<close>.
\<close>

partial_function (option) inner_find ::
  "store \<Rightarrow> int \<Rightarrow> nat \<Rightarrow> (exn + nat \<times> string option) option" where
  "inner_find h v p =
     (case nvalue (h p) of
        None \<Rightarrow> Some (Inl TypeError)
      | Some pv \<Rightarrow>
          if v = pv then Some (Inr (p, None))
          else if v < pv then
            (case left (h p) of
               PyNone \<Rightarrow> Some (Inl AttributeError)
             | Ref l \<Rightarrow>
                 if nvalue (h l) = None then Some (Inr (p, Some ''L''))
                 else inner_find h v l)
          else
            (case right (h p) of
               PyNone \<Rightarrow> Some (Inl AttributeError)
             | Ref r \<Rightarrow>
                 if nvalue (h r) = None then Some (Inr (p, Some ''R''))
                 else inner_find h v r))"

definition find_parent :: "state \<Rightarrow> int \<Rightarrow> (exn + nat \<times> string option) option" where
  "find_parent s v =
     (case root s of
        PyNone \<Rightarrow> Some (Inl AttributeError)
      | Ref r \<Rightarrow> inner_find (heap s) v r)"

subsection \<open>Attribute assignment and the rotations\<close>

text \<open>
  A statement maps a store to an outcome and the store it leaves behind; what was
  written before an exception stays written.
\<close>

type_synonym stmt = "store \<Rightarrow> (exn + unit) \<times> store"

definition seq :: "stmt \<Rightarrow> stmt \<Rightarrow> stmt" where
  "seq f g h = (case f h of (Inl e, h') \<Rightarrow> (Inl e, h') | (Inr u, h') \<Rightarrow> g h')"

definition skip :: stmt where
  "skip h = (Inr (), h)"

definition set_left :: "ref \<Rightarrow> ref \<Rightarrow> stmt" where
  "set_left obj v h =
     (case obj of
        PyNone \<Rightarrow> (Inl AttributeError, h)
      | Ref a \<Rightarrow> (Inr (), h(a := (h a)\<lparr>left := v\<rparr>)))"

definition set_right :: "ref \<Rightarrow> ref \<Rightarrow> stmt" where
  "set_right obj v h =
     (case obj of
        PyNone \<Rightarrow> (Inl AttributeError, h)
      | Ref a \<Rightarrow> (Inr (), h(a := (h a)\<lparr>right := v\<rparr>)))"

definition set_color :: "ref \<Rightarrow> Shades \<Rightarrow> stmt" where
  "set_color obj c h =
     (case obj of
        PyNone \<Rightarrow> (Inl AttributeError, h)
      | Ref a \<Rightarrow> (Inr (), h(a := (h a)\<lparr>color := c\<rparr>)))"

text \<open>
  \<open>if to_recolor:\<close> tests the truth value of the argument: \<open>None\<close> is false, and an
  \<open>RBNode\<close> (the class defines neither \<open>__bool__\<close> nor \<open>__len__\<close>) is true.
\<close>

definition right_rotation :: "ref \<Rightarrow> ref \<Rightarrow> ref \<Rightarrow> ref \<Rightarrow> ref \<Rightarrow> ref \<Rightarrow> stmt" where
  "right_rotation A X B Y C to_recolor =
     seq (set_left X A)
    (seq (set_right X Y)
    (seq (set_left Y B)
    (seq (set_right Y C)
     (if to_recolor \<noteq> PyNone then
        seq (set_color X BLACK)
       (seq (set_color to_recolor RED)
            (set_color Y RED))
      else skip))))"

definition left_rotation :: "ref \<Rightarrow> ref \<Rightarrow> ref \<Rightarrow> ref \<Rightarrow> ref \<Rightarrow> ref \<Rightarrow> stmt" where
  "left_rotation A X B Y C to_recolor =
     seq (set_left Y X)
    (seq (set_right Y C)
    (seq (set_left X A)
    (seq (set_right X B)
     (if to_recolor \<noteq> PyNone then
        seq (set_color Y BLACK)
       (seq (set_color to_recolor RED)
            (set_color X RED))
      else skip))))"

subsection \<open>_recolor\<close>

text \<open>
  The class declares \<open>def _recolor(node)\<close>: one positional parameter and no \<open>self\<close>.
  A call receives the list of its positional arguments. With exactly one argument the
  body runs: it blackens the two children of \<open>node\<close> and then evaluates
  \<open>node != self.root\<close>, where the name \<open>self\<close> is bound nowhere, so it raises
  \<open>NameError\<close> before it reaches \<open>self._try_rebalance(node)\<close>. With any other number of
  arguments Python raises \<open>TypeError\<close> while binding them and no statement of the body
  runs.
\<close>

datatype pyarg = TreeObj | NodeObj ref

fun recolor :: "pyarg list \<Rightarrow> stmt" where
  "recolor [NodeObj (Ref node)] h =
     (case seq (set_color (right (h node)) BLACK)
               (\<lambda>h'. set_color (left (h' node)) BLACK h') h of
        (Inl e, h') \<Rightarrow> (Inl e, h')
      | (Inr u, h') \<Rightarrow> (Inl NameError, h'))"
| "recolor [NodeObj PyNone] h = (Inl AttributeError, h)"
| "recolor [TreeObj] h = (Inl AttributeError, h)"
| "recolor args h = (Inl TypeError, h)"

subsection \<open>_try_rebalance\<close>

text \<open>
  The directions are Python strings and \<open>general_direction\<close> is their concatenation, so
  the final \<open>else: raise ValueError\<close> is a branch of the model too. The uncle is chosen by
  \<open>node_direction\<close>, as the source does. \<open>self._recolor(grandfather)\<close> is a bound-method
  call: it passes the tree and \<open>grandfather\<close>.
\<close>

definition try_rebalance :: "nat \<Rightarrow> stmt" where
  "try_rebalance node h =
     (case parent (h node) of
        PyNone \<Rightarrow> (Inr (), h)
      | Ref p \<Rightarrow>
         (case parent (h p) of
            PyNone \<Rightarrow> (Inr (), h)
          | Ref grandfather \<Rightarrow>
              if color (h node) \<noteq> RED \<or> color (h p) \<noteq> RED then (Inr (), h)
              else
               (case (nvalue (h node), nvalue (h p)) of
                  (Some nv, Some pv) \<Rightarrow>
                    (let node_direction = (if nv < pv then ''L'' else ''R'') in
                     case py_eq h (Ref p) (left (h grandfather)) of
                       Inl e \<Rightarrow> (Inl e, h)
                     | Inr is_left \<Rightarrow>
                        (let parent_direction = (if is_left then ''L'' else ''R'');
                             uncle = (if node_direction = ''L'' then right (h grandfather)
                                      else left (h grandfather));
                             general_direction = parent_direction @ node_direction
                         in case py_eq h uncle (Ref NIL_LEAF) of
                              Inl e \<Rightarrow> (Inl e, h)
                            | Inr is_nil \<Rightarrow>
                               (case (if is_nil then Inr True
                                      else (case uncle of
                                              PyNone \<Rightarrow> Inl AttributeError
                                            | Ref u \<Rightarrow> Inr (color (h u) = BLACK))) of
                                  Inl e \<Rightarrow> (Inl e, h)
                                | Inr uncle_black \<Rightarrow>
                                   if uncle_black then
                                     if general_direction = ''LL'' then
                                       right_rotation (Ref node) (right (h p)) (Ref p)
                                         (Ref grandfather) uncle (Ref node) h
                                     else if general_direction = ''RR'' then
                                       left_rotation uncle (Ref grandfather) (left (h p))
                                         (Ref p) (Ref node) (Ref node) h
                                     else if general_direction = ''LR'' then
                                       (Inl NotImplementedError, h)
                                     else if general_direction = ''RL'' then
                                       (Inl NotImplementedError, h)
                                     else (Inl ValueError, h)
                                   else recolor [TreeObj, NodeObj (Ref grandfather)] h)))
                | _ \<Rightarrow> (Inl TypeError, h))))"

subsection \<open>add\<close>

text \<open>
  \<open>add\<close> returns \<open>None\<close> (the bare \<open>return\<close>) when it creates the root and when the value
  is found, and the new node otherwise. \<open>not self.root\<close> is true exactly when the root is
  \<open>None\<close>. The result is \<open>None\<close> when the descent does not return; otherwise the outcome
  (raised exception or returned reference) with the state the call leaves behind:
  the new node is attached before \<open>_try_rebalance\<close> runs, and \<open>count\<close> is incremented
  only after it has returned.
\<close>

definition new_node :: "int \<Rightarrow> Shades \<Rightarrow> ref \<Rightarrow> RBNode" where
  "new_node v c p =
     \<lparr>nvalue = Some v, color = c, parent = p, left = Ref NIL_LEAF, right = Ref NIL_LEAF\<rparr>"

text \<open>
  The lines between the duplicate test and the call of \<open>_try_rebalance\<close>: allocate the
  Red node \<open>n\<close> with parent \<open>p\<close>, then the two \<open>if\<close> statements on the side.
\<close>

definition attach :: "int \<Rightarrow> nat \<Rightarrow> string option \<Rightarrow> nat \<Rightarrow> store \<Rightarrow> store" where
  "attach v p node_direction n h =
     (let h1 = h(n := new_node v RED (Ref p));
          h2 = (if node_direction = Some ''L''
                then h1(p := (h1 p)\<lparr>left := Ref n\<rparr>) else h1);
          h3 = (if node_direction = Some ''R''
                then h2(p := (h2 p)\<lparr>right := Ref n\<rparr>) else h2)
      in h3)"

definition add :: "int \<Rightarrow> state \<Rightarrow> ((exn + ref) \<times> state) option" where
  "add v s =
     (case root s of
        PyNone \<Rightarrow>
          Some (Inr PyNone,
                s\<lparr>heap := (heap s)(nxt s := new_node v BLACK PyNone),
                  nxt := nxt s + 1,
                  root := Ref (nxt s),
                  count := count s + 1\<rparr>)
      | Ref r \<Rightarrow>
         (case find_parent s v of
            None \<Rightarrow> None
          | Some (Inl e) \<Rightarrow> Some (Inl e, s)
          | Some (Inr (p, node_direction)) \<Rightarrow>
              if node_direction = None then Some (Inr PyNone, s)
              else
                (case try_rebalance (nxt s) (attach v p node_direction (nxt s) (heap s)) of
                   (Inl e, h4) \<Rightarrow> Some (Inl e, s\<lparr>heap := h4, nxt := nxt s + 1\<rparr>)
                 | (Inr u, h4) \<Rightarrow>
                     Some (Inr (Ref (nxt s)),
                           s\<lparr>heap := h4, nxt := nxt s + 1, count := count s + 1\<rparr>))))"

subsection \<open>Sequences of calls\<close>

text \<open>
  \<open>adds\<close> is a script of \<open>add\<close> calls with nothing around them: an exception ends the
  script. \<open>Some (Inr s)\<close>: every call returned and left state \<open>s\<close>; \<open>Some (Inl (e, s))\<close>:
  a call raised \<open>e\<close> in state \<open>s\<close>; \<open>None\<close>: a call did not return.
\<close>

fun adds :: "int list \<Rightarrow> state \<Rightarrow> (exn \<times> state + state) option" where
  "adds [] s = Some (Inr s)"
| "adds (v # vs) s =
     (case add v s of
        None \<Rightarrow> None
      | Some (Inl e, s') \<Rightarrow> Some (Inl (e, s'))
      | Some (Inr r, s') \<Rightarrow> adds vs s')"

text \<open>
  \<open>adds_caught\<close> is the same script with every call wrapped in \<open>try: ... except: pass\<close>:
  the caller goes on with whatever state the failed call left.
\<close>

fun adds_caught :: "int list \<Rightarrow> state \<Rightarrow> state option" where
  "adds_caught [] s = Some s"
| "adds_caught (v # vs) s =
     (case add v s of
        None \<Rightarrow> None
      | Some (res, s') \<Rightarrow> adds_caught vs s')"


section \<open>Predicates on stores and states\<close>

text \<open>
  A statement \<open>keeps\<close> the sentinel when, whatever its outcome, it leaves every
  \<open>value\<close> and \<open>parent\<close> attribute as it was and does not turn a Black sentinel into a
  Red one.
\<close>

definition keeps :: "stmt \<Rightarrow> bool" where
  "keeps f = (\<forall>h r h'. f h = (r, h') \<longrightarrow>
      (\<forall>a. nvalue (h' a) = nvalue (h a) \<and> parent (h' a) = parent (h a))
      \<and> (color (h NIL_LEAF) = BLACK \<longrightarrow> color (h' NIL_LEAF) = BLACK))"

text \<open>
  What every sequence of calls maintains about the sentinel: it has no value, it is
  Black, it is never handed out again by the allocator, and no \<open>parent\<close> attribute
  refers to it.
\<close>

definition sentinel_inv :: "state \<Rightarrow> bool" where
  "sentinel_inv s =
     (nvalue (heap s NIL_LEAF) = None \<and> color (heap s NIL_LEAF) = BLACK
      \<and> nxt s \<noteq> NIL_LEAF
      \<and> (\<forall>a g. parent (heap s a) = Ref g \<longrightarrow> g \<noteq> NIL_LEAF))"

text \<open>
  The stores that calls of \<open>add\<close> which all return can build. Below the root hangs a
  left spine: a list of Red nodes, each the left child of the one before it and smaller
  than it, each with the sentinel as right child and with its \<open>parent\<close> attribute
  pointing one step up; the last one has the sentinel as left child. The right child of
  the root is the sentinel or a single Red leaf larger than the root. \<open>m\<close> bounds the
  addresses in use.
\<close>

definition below :: "store \<Rightarrow> nat \<Rightarrow> nat \<Rightarrow> bool" where
  "below h a p = (case (nvalue (h a), nvalue (h p)) of
                    (Some va, Some vp) \<Rightarrow> va < vp | _ \<Rightarrow> False)"

fun chain :: "store \<Rightarrow> nat \<Rightarrow> nat \<Rightarrow> nat list \<Rightarrow> bool" where
  "chain h m p [] = (left (h p) = Ref NIL_LEAF)"
| "chain h m p (a # as) =
     (left (h p) = Ref a \<and> a < m \<and> parent (h a) = Ref p \<and> right (h a) = Ref NIL_LEAF
      \<and> color (h a) = RED \<and> below h a p \<and> chain h m a as)"

definition right_ok :: "store \<Rightarrow> nat \<Rightarrow> nat \<Rightarrow> bool" where
  "right_ok h m r =
     (case right (h r) of
        PyNone \<Rightarrow> False
      | Ref b \<Rightarrow>
          b = NIL_LEAF \<or>
          (b < m \<and> parent (h b) = Ref r \<and> left (h b) = Ref NIL_LEAF
           \<and> right (h b) = Ref NIL_LEAF \<and> color (h b) = RED \<and> below h r b))"

definition shape :: "state \<Rightarrow> nat list \<Rightarrow> bool" where
  "shape s as =
     (nvalue (heap s NIL_LEAF) = None \<and> nxt s \<noteq> NIL_LEAF \<and>
      (case root s of
         PyNone \<Rightarrow> as = []
       | Ref r \<Rightarrow> r < nxt s \<and> parent (heap s r) = PyNone \<and> nvalue (heap s r) \<noteq> None
                  \<and> chain (heap s) (nxt s) r as \<and> right_ok (heap s) (nxt s) r))"

section \<open>The sentinel\<close>

lemma keeps_seq: "keeps f \<Longrightarrow> keeps g \<Longrightarrow> keeps (seq f g)"
  unfolding keeps_def seq_def
  by (auto split: prod.splits sum.splits) 

lemma keeps_skip: "keeps skip"
  by (simp add: keeps_def skip_def)

lemma keeps_set_left: "keeps (set_left obj v)"
  by (auto simp: keeps_def set_left_def split: ref.splits)

lemma keeps_set_right: "keeps (set_right obj v)"
  by (auto simp: keeps_def set_right_def split: ref.splits)

lemma keeps_set_color: "c = BLACK \<or> obj \<noteq> Ref NIL_LEAF \<Longrightarrow> keeps (set_color obj c)"
  by (auto simp: keeps_def set_color_def split: ref.splits)

lemma keeps_right_rotation:
  "Y \<noteq> Ref NIL_LEAF \<Longrightarrow> t \<noteq> Ref NIL_LEAF \<Longrightarrow> keeps (right_rotation A X B Y C t)"
  unfolding right_rotation_def
  by (intro keeps_seq keeps_set_left keeps_set_right) (simp add: keeps_seq keeps_set_color keeps_skip)

lemma keeps_left_rotation:
  "X \<noteq> Ref NIL_LEAF \<Longrightarrow> t \<noteq> Ref NIL_LEAF \<Longrightarrow> keeps (left_rotation A X B Y C t)"
  unfolding left_rotation_def
  by (intro keeps_seq keeps_set_left keeps_set_right) (simp add: keeps_seq keeps_set_color keeps_skip)

lemma keeps_recolor2: "keeps (recolor [TreeObj, NodeObj g])"
  by (simp add: keeps_def)

lemma keepsD: "keeps f \<Longrightarrow> f h = (r, h') \<Longrightarrow> 
   (\<forall>a. nvalue (h' a) = nvalue (h a) \<and> parent (h' a) = parent (h a))
      \<and> (color (h NIL_LEAF) = BLACK \<longrightarrow> color (h' NIL_LEAF) = BLACK)"
  unfolding keeps_def by blast

lemma try_rebalance_keeps:
  assumes par: "\<forall>a g. parent (h a) = Ref g \<longrightarrow> g \<noteq> NIL_LEAF"
    and n: "n \<noteq> NIL_LEAF"
    and tr: "try_rebalance n h = (r, h')"
  shows "(\<forall>a. nvalue (h' a) = nvalue (h a) \<and> parent (h' a) = parent (h a))
      \<and> (color (h NIL_LEAF) = BLACK \<longrightarrow> color (h' NIL_LEAF) = BLACK)"
  using tr par n unfolding try_rebalance_def Let_def
  by (auto split: ref.splits if_splits option.splits sum.splits dest!: keepsD[OF keeps_right_rotation, rotated 2] keepsD[OF keeps_left_rotation, rotated 2] keepsD[OF keeps_recolor2])

lemma inner_find_valued_aux:
  assumes "inner_find h v p = Some res"
  shows "\<forall>q d. res = Inr (q, d) \<longrightarrow> nvalue (h q) \<noteq> None"
proof (rule inner_find.raw_induct
    [where P = "\<lambda>h v p res. \<forall>q d. res = Inr (q, d) \<longrightarrow> nvalue (h q) \<noteq> None", OF _ assms],
    goal_cases)
  case (1 f h v p res)
  then show ?case
    by (auto split: option.splits if_splits ref.splits)
qed

lemma inner_find_valued:
  "inner_find h v p = Some (Inr (q, d)) \<Longrightarrow> nvalue (h q) \<noteq> None"
  using inner_find_valued_aux by blast

lemma sentinel_inv_init: "sentinel_inv init"
  by (simp add: sentinel_inv_def init_def nil_node_def NIL_LEAF_def)

lemma add_attach:
  assumes "root s = Ref r" and "find_parent s v = Some (Inr (p, Some dir))"
    and "try_rebalance (nxt s) (attach v p (Some dir) (nxt s) (heap s)) = (r4, h4)"
  shows "add v s = Some (case r4 of
            Inl e \<Rightarrow> (Inl e, s\<lparr>heap := h4, nxt := nxt s + 1\<rparr>)
          | Inr u \<Rightarrow> (Inr (Ref (nxt s)), s\<lparr>heap := h4, nxt := nxt s + 1, count := count s + 1\<rparr>))"
  using assms by (simp add: add_def split: sum.splits)

lemma attach_fields:
  "nvalue (attach v p d n h a) = (if a = n then Some v else nvalue (h a))"
  "parent (attach v p d n h a) = (if a = n then Ref p else parent (h a))"
  "a \<noteq> n \<Longrightarrow> color (attach v p d n h a) = color (h a)"
  by (auto simp: attach_def Let_def new_node_def)

lemma sentinel_inv_add:
  assumes inv: "sentinel_inv s" and ad: "add v s = Some (res, s')"
  shows "sentinel_inv s'"
proof (cases "root s")
  case PyNone
  with ad inv show ?thesis
    by (auto simp: add_def sentinel_inv_def new_node_def NIL_LEAF_def split: if_splits)
next
  case (Ref r)
  show ?thesis
  proof (cases "find_parent s v")
    case None
    with ad Ref show ?thesis by (simp add: add_def)
  next
    case (Some fr)
    show ?thesis
    proof (cases fr)
      case (Inl e)
      with ad Ref Some inv show ?thesis by (auto simp: add_def)
    next
      case (Inr pd)
      obtain p d where pd: "pd = (p, d)" by (cases pd)
      have fp: "inner_find (heap s) v r = Some (Inr (p, d))"
        using Some Inr pd Ref by (simp add: find_parent_def)
      have pv: "nvalue (heap s p) \<noteq> None"
        using inner_find_valued[OF fp] .
      have p0: "p \<noteq> NIL_LEAF"
        using pv inv by (auto simp: sentinel_inv_def)
      show ?thesis
      proof (cases d)
        case None
        with ad Ref Some Inr pd inv show ?thesis by (auto simp: add_def)
      next
        case (Some dir)
        define h3 where "h3 = attach v p (Some dir) (nxt s) (heap s)"
        have n0: "nxt s \<noteq> NIL_LEAF" using inv by (simp add: sentinel_inv_def)
        have h3nil: "nvalue (h3 NIL_LEAF) = None \<and> color (h3 NIL_LEAF) = BLACK"
          using inv n0 by (auto simp: h3_def attach_fields sentinel_inv_def)
        have h3par: "\<forall>a g. parent (h3 a) = Ref g \<longrightarrow> g \<noteq> NIL_LEAF"
          using inv p0 by (auto simp: h3_def attach_fields sentinel_inv_def)
        obtain r4 h4 where tr: "try_rebalance (nxt s) h3 = (r4, h4)"
          by (cases "try_rebalance (nxt s) h3")
        note k = try_rebalance_keeps[OF h3par n0 tr]
        have "add v s = Some (case r4 of
            Inl e \<Rightarrow> (Inl e, s\<lparr>heap := h4, nxt := nxt s + 1\<rparr>)
          | Inr u \<Rightarrow> (Inr (Ref (nxt s)), s\<lparr>heap := h4, nxt := nxt s + 1, count := count s + 1\<rparr>))"
          using add_attach[OF Ref _ tr[unfolded h3_def]] \<open>find_parent s v = Some fr\<close> Inr pd Some
          by simp
        with ad have heap': "heap s' = h4 \<and> nxt s' = nxt s + 1"
          by (cases r4) auto
        show ?thesis
          using k h3nil h3par heap' by (auto simp: sentinel_inv_def NIL_LEAF_def)
      qed
    qed
  qed
qed

lemma sentinel_inv_adds_caught:
  "sentinel_inv s \<Longrightarrow> adds_caught vs s = Some s' \<Longrightarrow> sentinel_inv s'"
proof (induction vs arbitrary: s)
  case Nil
  then show ?case by simp
next
  case (Cons v vs)
  then show ?case
    by (auto split: option.splits prod.splits dest: sentinel_inv_add)
qed

section \<open>Stores built by calls that return\<close>

text \<open>
  The invariant \<open>shape\<close> holds in the empty tree and after every call of \<open>add\<close> that
  returns. On a store of this shape the descent of \<open>_find_parent\<close> is finite, and a call
  either finds its value or attaches the new node in one of four places: as the right
  child of the root, below the right leaf, at the end of the left spine, or as the right
  child of a node of the spine. The lemmas run \<open>_try_rebalance\<close> for each place; where it
  raises, the call does not return and nothing has to be shown.
\<close>

lemma belowD: "below h a p \<Longrightarrow> \<exists>va vp. nvalue (h a) = Some va \<and> nvalue (h p) = Some vp \<and> va < vp"
  by (auto simp: below_def split: option.splits)

lemma below_trans: "below h a b \<Longrightarrow> below h b c \<Longrightarrow> below h a c"
  by (auto simp: below_def split: option.splits)

lemma chain_below: "chain h m p as \<Longrightarrow> a \<in> set as \<Longrightarrow> below h a p"
  by (induction as arbitrary: p) (auto intro: below_trans)

lemma chain_less: "chain h m p as \<Longrightarrow> a \<in> set as \<Longrightarrow> a < m"
  by (induction as arbitrary: p) auto

lemma chain_red: "chain h m p as \<Longrightarrow> a \<in> set as \<Longrightarrow> color (h a) = RED \<and> right (h a) = Ref NIL_LEAF"
  by (induction as arbitrary: p) auto

lemma chain_head_notin: "chain h m p as \<Longrightarrow> p \<notin> set as"
  using chain_below[of h m p as p] by (auto simp: below_def split: option.splits)

lemma chain_last_left: "chain h m p as \<Longrightarrow> left (h (last (p # as))) = Ref NIL_LEAF"
  by (induction as arbitrary: p) auto

lemma chain_frame:
  assumes "chain h m p as"
    and "\<forall>a \<in> set (p # as). left (h' a) = left (h a) \<and> nvalue (h' a) = nvalue (h a)"
    and "\<forall>a \<in> set as. parent (h' a) = parent (h a) \<and> right (h' a) = right (h a)
                       \<and> color (h' a) = color (h a)"
    and "m \<le> m'"
  shows "chain h' m' p as"
  using assms
proof (induction as arbitrary: p)
  case Nil
  then show ?case by simp
next
  case (Cons a as)
  have "chain h' m' a as" using Cons.prems by (intro Cons.IH) auto
  then show ?case using Cons.prems by (auto simp: below_def)
qed

lemma chain_snoc:
  assumes "chain h m p as"
    and "\<forall>a \<in> set (p # as). nvalue (h' a) = nvalue (h a)
                              \<and> (a \<noteq> last (p # as) \<longrightarrow> left (h' a) = left (h a))"
    and "\<forall>a \<in> set as. parent (h' a) = parent (h a) \<and> right (h' a) = right (h a)
                       \<and> color (h' a) = color (h a)"
    and "m \<le> m'" and "n < m'"
    and "left (h' (last (p # as))) = Ref n"
    and "parent (h' n) = Ref (last (p # as))"
    and "left (h' n) = Ref NIL_LEAF" and "right (h' n) = Ref NIL_LEAF" and "color (h' n) = RED"
    and "below h' n (last (p # as))"
  shows "chain h' m' p (as @ [n])"
  using assms
proof (induction as arbitrary: p)
  case Nil
  then show ?case by simp
next
  case (Cons a as)
  have pa: "p \<noteq> last (a # as)"
    using chain_head_notin[OF Cons.prems(1)] by (metis last_in_set list.distinct(1))
  have "chain h' m' a (as @ [n])" using Cons.prems by (intro Cons.IH) auto
  then show ?case using Cons.prems pa by (auto simp: below_def)
qed

lemma inner_find_chain:
  assumes "chain h m p as" and "nvalue (h NIL_LEAF) = None" and "nvalue (h p) = Some vp"
    and "v \<le> vp \<or> right (h p) = Ref NIL_LEAF"
  shows "\<exists>q d. inner_find h v p = Some (Inr (q, d)) \<and> q \<in> set (p # as) \<and>
           (d = None \<and> nvalue (h q) = Some v
            \<or> d = Some ''L'' \<and> q = last (p # as) \<and> (\<exists>vq. nvalue (h q) = Some vq \<and> v < vq)
            \<or> d = Some ''R'' \<and> right (h q) = Ref NIL_LEAF \<and> (\<exists>vq. nvalue (h q) = Some vq \<and> vq < v))"
  using assms
proof (induction as arbitrary: p vp)
  case Nil
  then show ?case
    by (subst inner_find.simps) auto
next
  case (Cons a as)
  from Cons.prems(1) obtain va where va: "nvalue (h a) = Some va"
    by (auto dest: belowD)
  have ra: "right (h a) = Ref NIL_LEAF" and ca: "chain h m a as" and la: "left (h p) = Ref a"
    using Cons.prems(1) by auto
  from Cons.IH[OF ca Cons.prems(2) va] ra
  obtain q d where IH: "inner_find h v a = Some (Inr (q, d))" "q \<in> set (a # as)"
    "(d = None \<and> nvalue (h q) = Some v
            \<or> d = Some ''L'' \<and> q = last (a # as) \<and> (\<exists>vq. nvalue (h q) = Some vq \<and> v < vq)
            \<or> d = Some ''R'' \<and> right (h q) = Ref NIL_LEAF \<and> (\<exists>vq. nvalue (h q) = Some vq \<and> vq < v))"
    by blast
  show ?case
  proof (cases "v < vp")
    case True
    then have "inner_find h v p = inner_find h v a"
      using Cons.prems la va by (subst inner_find.simps) auto
    with IH show ?thesis by auto
  next
    case False
    then show ?thesis using Cons.prems
      by (subst inner_find.simps) auto
  qed
qed

lemma RBNode_eq_self: "parent (h p) = Ref g \<Longrightarrow> RBNode_eq h p p"
  by (simp add: RBNode_eq_def)

lemma RBNode_eq_nil: "nvalue (h NIL_LEAF) = None \<Longrightarrow> RBNode_eq h u NIL_LEAF = (nvalue (h u) = None)"
  by (auto simp: RBNode_eq_def Let_def)

lemma try_rebalance_root_child:
  "parent (h n) = Ref p \<Longrightarrow> parent (h p) = PyNone \<Longrightarrow> try_rebalance n h = (Inr (), h)"
  by (simp add: try_rebalance_def)

lemma try_rebalance_red_uncle:
  assumes "parent (h n) = Ref p" "parent (h p) = Ref g" "color (h n) = RED" "color (h p) = RED"
    and "nvalue (h n) = Some nv" "nvalue (h p) = Some pv"
    and "left (h g) = Ref l"
    and "(if nv < pv then right (h g) else left (h g)) = Ref u"
    and "nvalue (h u) \<noteq> None" "color (h u) = RED" "nvalue (h NIL_LEAF) = None"
  shows "try_rebalance n h = (Inl TypeError, h)"
  using assms
  by (auto simp: try_rebalance_def Let_def py_eq_def RBNode_eq_nil split: if_splits)

lemma try_rebalance_LL:
  assumes "parent (h n) = Ref p" "parent (h p) = Ref g" "color (h n) = RED" "color (h p) = RED"
    and "nvalue (h n) = Some nv" "nvalue (h p) = Some pv" "nv < pv"
    and "left (h g) = Ref p" "right (h g) = Ref NIL_LEAF" "right (h p) = Ref NIL_LEAF"
    and "nvalue (h NIL_LEAF) = None"
    and "g \<noteq> NIL_LEAF" "n \<noteq> NIL_LEAF" "n \<noteq> g"
  shows "\<exists>h'. try_rebalance n h = (Inr (), h')
           \<and> (\<forall>a. a \<noteq> NIL_LEAF \<longrightarrow> a \<noteq> g \<longrightarrow> h' a = h a)
           \<and> h' g = (h g)\<lparr>color := RED\<rparr>
           \<and> nvalue (h' NIL_LEAF) = None"
  using assms
  by (auto simp: try_rebalance_def Let_def py_eq_def RBNode_eq_nil RBNode_eq_self
      right_rotation_def seq_def set_left_def set_right_def set_color_def)

lemma try_rebalance_RR:
  assumes "parent (h n) = Ref b" "parent (h b) = Ref r" "color (h n) = RED" "color (h b) = RED"
    and "nvalue (h n) = Some nv" "nvalue (h b) = Some bv" "\<not> nv < bv"
    and "left (h r) = Ref NIL_LEAF" "left (h b) = Ref NIL_LEAF"
    and "nvalue (h NIL_LEAF) = None"
    and "r \<noteq> NIL_LEAF" "b \<noteq> NIL_LEAF" "n \<noteq> NIL_LEAF" "n \<noteq> r" "n \<noteq> b" "r \<noteq> b"
  shows "\<exists>h'. try_rebalance n h = (Inr (), h')
           \<and> (\<forall>a. a \<noteq> b \<longrightarrow> a \<noteq> r \<longrightarrow> h' a = h a)
           \<and> h' r = (h r)\<lparr>right := Ref NIL_LEAF, color := RED\<rparr>"
  using assms
  by (auto simp: try_rebalance_def Let_def py_eq_def RBNode_eq_nil
      left_rotation_def seq_def set_left_def set_right_def set_color_def)

lemma attach_L:
  "q \<noteq> n \<Longrightarrow> attach v q (Some ''L'') n h = h(n := new_node v RED (Ref q), q := (h q)\<lparr>left := Ref n\<rparr>)"
  by (simp add: attach_def Let_def)

lemma attach_R:
  "q \<noteq> n \<Longrightarrow> attach v q (Some ''R'') n h = h(n := new_node v RED (Ref q), q := (h q)\<lparr>right := Ref n\<rparr>)"
  by (simp add: attach_def Let_def)

lemma chain_parent:
  "chain h m p as \<Longrightarrow> q \<in> set as \<Longrightarrow>
     \<exists>g \<in> set (p # as). parent (h q) = Ref g \<and> left (h g) = Ref q"
proof (induction as arbitrary: p)
  case Nil
  then show ?case by simp
next
  case (Cons a as)
  show ?case
  proof (cases "q = a")
    case True
    with Cons.prems show ?thesis by auto
  next
    case False
    with Cons.IH[of a] Cons.prems show ?thesis by auto
  qed
qed

lemma chain_valued: "chain h m p as \<Longrightarrow> a \<in> set as \<Longrightarrow> nvalue (h a) \<noteq> None"
  by (auto dest!: chain_below belowD)

lemma find_parent_shape:
  assumes sh: "shape s as" and rt: "root s = Ref r"
  shows "\<exists>q d. find_parent s v = Some (Inr (q, d)) \<and>
     (d = None
      \<or> (d = Some ''R'' \<and> q = r \<and> right (heap s r) = Ref NIL_LEAF
           \<and> (\<exists>vr. nvalue (heap s r) = Some vr \<and> vr < v))
      \<or> (right (heap s r) = Ref q \<and> q \<noteq> NIL_LEAF
           \<and> (d = Some ''L'' \<and> (\<exists>vb. nvalue (heap s q) = Some vb \<and> v < vb)
              \<or> d = Some ''R'' \<and> (\<exists>vb. nvalue (heap s q) = Some vb \<and> vb < v)))
      \<or> (d = Some ''L'' \<and> q = last (r # as) \<and> (\<exists>vq. nvalue (heap s q) = Some vq \<and> v < vq))
      \<or> (d = Some ''R'' \<and> q \<in> set as \<and> (\<exists>vq. nvalue (heap s q) = Some vq \<and> vq < v)))"
proof -
  let ?h = "heap s"
  from sh rt obtain vr where vr: "nvalue (?h r) = Some vr" by (auto simp: shape_def)
  have nil: "nvalue (?h NIL_LEAF) = None" using sh by (simp add: shape_def)
  have ch: "chain ?h (nxt s) r as" and ro: "right_ok ?h (nxt s) r"
    using sh rt by (auto simp: shape_def)
  have fp: "find_parent s v = inner_find ?h v r" using rt by (simp add: find_parent_def)
  show ?thesis
  proof (cases "v \<le> vr")
    case True
    from inner_find_chain[OF ch nil vr, of v] True
    obtain q d where qd: "inner_find ?h v r = Some (Inr (q, d))" "q \<in> set (r # as)"
      "(d = None \<and> nvalue (?h q) = Some v
            \<or> d = Some ''L'' \<and> q = last (r # as) \<and> (\<exists>vq. nvalue (?h q) = Some vq \<and> v < vq)
            \<or> d = Some ''R'' \<and> right (?h q) = Ref NIL_LEAF \<and> (\<exists>vq. nvalue (?h q) = Some vq \<and> vq < v))"
      by blast
    from qd(3) consider
        (found) "d = None"
      | (L) "d = Some ''L''" "q = last (r # as)" "\<exists>vq. nvalue (?h q) = Some vq \<and> v < vq"
      | (R) "d = Some ''R''" "\<exists>vq. nvalue (?h q) = Some vq \<and> vq < v"
      by blast
    then show ?thesis
    proof cases
      case found
      with qd(1) fp show ?thesis by simp
    next
      case L
      with qd(1) fp show ?thesis by simp
    next
      case R
      then have "q \<noteq> r" using True vr by auto
      with qd(2) have "q \<in> set as" by simp
      with R qd(1) fp show ?thesis by simp
    qed
  next
    case False
    from ro obtain b where b: "right (?h r) = Ref b" 
      by (auto simp: right_ok_def split: ref.splits)
    show ?thesis
    proof (cases "b = NIL_LEAF")
      case True
      have "inner_find ?h v r = Some (Inr (r, Some ''R''))"
        using False vr b True nil by (subst inner_find.simps) auto
      with fp False vr b True show ?thesis by auto
    next
      case bn: False
      with ro b obtain vb where vb: "nvalue (?h b) = Some vb"
        and lb: "left (?h b) = Ref NIL_LEAF" and rb: "right (?h b) = Ref NIL_LEAF"
        by (auto simp: right_ok_def dest!: belowD)
      have 1: "inner_find ?h v r = inner_find ?h v b"
        using False vr b vb by (subst inner_find.simps) auto
      have 2: "inner_find ?h v b =
           Some (Inr (b, if v = vb then None else if v < vb then Some ''L'' else Some ''R''))"
        using vb lb rb nil by (subst inner_find.simps) auto
      show ?thesis using fp 1 2 b bn vb
        by (intro exI[of _ b] exI[of _ "if v = vb then None else if v < vb then Some ''L'' else Some ''R''"]) auto
    qed
  qed
qed



lemma add_returns_on_shape:
  assumes sh: "shape s as"
  shows "\<exists>res. add v s = Some res"
proof (cases "root s")
  case PyNone
  then show ?thesis by (simp add: add_def)
next
  case (Ref r)
  from find_parent_shape[OF sh Ref, of v] obtain q d
    where "find_parent s v = Some (Inr (q, d))" by blast
  with Ref show ?thesis
    by (simp add: add_def split: prod.splits sum.splits)
qed

lemma add_attach_Inr:
  assumes "root s = Ref r" and "find_parent s v = Some (Inr (q, Some dir))"
    and "add v s = Some (Inr rr, s')"
  shows "\<exists>h4. try_rebalance (nxt s) (attach v q (Some dir) (nxt s) (heap s)) = (Inr (), h4)
           \<and> s' = s\<lparr>heap := h4, nxt := nxt s + 1, count := count s + 1\<rparr>"
proof -
  obtain r4 h4 where tr: "try_rebalance (nxt s) (attach v q (Some dir) (nxt s) (heap s)) = (r4, h4)"
    by (cases "try_rebalance (nxt s) (attach v q (Some dir) (nxt s) (heap s))")
  from add_attach[OF assms(1,2) tr] assms(3) show ?thesis
    using tr by (cases r4) auto
qed

lemma shape_rootD:
  assumes "shape s as" and "root s = Ref r"
  shows "nvalue (heap s NIL_LEAF) = None" and "nxt s \<noteq> NIL_LEAF" and "r < nxt s"
    and "parent (heap s r) = PyNone" and "\<exists>vr. nvalue (heap s r) = Some vr"
    and "chain (heap s) (nxt s) r as" and "right_ok (heap s) (nxt s) r" and "r \<noteq> NIL_LEAF"
  using assms by (auto simp: shape_def)

lemma shapeI:
  assumes "root s = Ref r" and "nvalue (heap s NIL_LEAF) = None"
    and "r < nxt s" and "parent (heap s r) = PyNone" and "nvalue (heap s r) \<noteq> None"
    and "chain (heap s) (nxt s) r as" and "right_ok (heap s) (nxt s) r"
  shows "shape s as"
  using assms by (auto simp: shape_def NIL_LEAF_def)

lemma right_ok_cases:
  assumes "right_ok h m r"
  obtains (nil) "right (h r) = Ref NIL_LEAF"
  | (leaf) b where "right (h r) = Ref b" "b \<noteq> NIL_LEAF" "b < m" "parent (h b) = Ref r"
      "left (h b) = Ref NIL_LEAF" "right (h b) = Ref NIL_LEAF" "color (h b) = RED" "below h r b"
  using assms by (auto simp: right_ok_def split: ref.splits)

lemma right_ok_frame:
  assumes "right_ok h m r" and "m \<le> m'"
    and "right (h' r) = right (h r)" and "nvalue (h' r) = nvalue (h r)"
    and "\<And>b. right (h r) = Ref b \<Longrightarrow> b \<noteq> NIL_LEAF \<Longrightarrow> h' b = h b"
  shows "right_ok h' m' r"
  using assms(1)
proof (cases rule: right_ok_cases)
  case nil
  then show ?thesis using assms(3) by (simp add: right_ok_def)
next
  case (leaf b)
  with assms(5)[OF leaf(1,2)] assms(2,3,4) show ?thesis
    by (simp add: right_ok_def below_def)
qed

text \<open>The new node becomes the right child of the root: nothing to rebalance.\<close>
lemma shape_attach_root_right:
  assumes sh: "shape s as" and rt: "root s = Ref r"
    and rr: "right (heap s r) = Ref NIL_LEAF"
    and vr: "nvalue (heap s r) = Some vr" "vr < v"
    and tr: "try_rebalance (nxt s) (attach v r (Some ''R'') (nxt s) (heap s)) = (res, h4)"
  shows "shape (s\<lparr>heap := h4, nxt := nxt s + 1, count := c\<rparr>) as"
proof -
  let ?h = "heap s" and ?n = "nxt s"
  note D = shape_rootD[OF sh rt]
  have rn: "r \<noteq> ?n" using D(3) by simp
  define h3 where "h3 = attach v r (Some ''R'') ?n ?h"
  have h3: "h3 = ?h(?n := new_node v RED (Ref r), r := (?h r)\<lparr>right := Ref ?n\<rparr>)"
    unfolding h3_def by (rule attach_R[OF rn])
  have "try_rebalance ?n h3 = (Inr (), h3)"
    by (rule try_rebalance_root_child[of _ _ r]) (use rn D(4) in \<open>simp_all add: h3 new_node_def\<close>)
  with tr have h4: "h4 = h3" by (simp add: h3_def)
  have ch: "chain h3 (?n + 1) r as"
  proof (rule chain_frame[OF D(6)])
    show "\<forall>a\<in>set (r # as). left (h3 a) = left (?h a) \<and> nvalue (h3 a) = nvalue (?h a)"
      using chain_less[OF D(6)] rn by (auto simp: h3)
    show "\<forall>a\<in>set as. parent (h3 a) = parent (?h a) \<and> right (h3 a) = right (?h a)
                       \<and> color (h3 a) = color (?h a)"
      using chain_less[OF D(6)] chain_head_notin[OF D(6)] by (auto simp: h3)
  qed simp
  have ro: "right_ok h3 (?n + 1) r"
    using rn vr D(2) by (simp add: right_ok_def h3 new_node_def below_def)
  show ?thesis
    by (rule shapeI[of _ r]) (use rt D rn ch ro vr in \<open>simp_all add: h4\<close>, simp_all add: h3)
qed

lemma below_neq: "below h a b \<Longrightarrow> a \<noteq> b"
  by (auto simp: below_def split: option.splits)

lemma chain_left_ref: "chain h m p as \<Longrightarrow> \<exists>l. left (h p) = Ref l"
  by (cases as) auto

text \<open>
  The new node becomes the left child of the right leaf: the uncle is read from
  \<open>grandfather.right\<close>, which is the Red parent itself, and the recolour call raises.
\<close>
lemma raise_below_right_leaf_L:
  assumes sh: "shape s as" and rt: "root s = Ref r"
    and rb: "right (heap s r) = Ref b" "b \<noteq> NIL_LEAF"
    and vb: "nvalue (heap s b) = Some vb" "v < vb"
  shows "try_rebalance (nxt s) (attach v b (Some ''L'') (nxt s) (heap s)) =
           (Inl TypeError, attach v b (Some ''L'') (nxt s) (heap s))"
proof -
  let ?h = "heap s" and ?n = "nxt s"
  note D = shape_rootD[OF sh rt]
  from D(7) rb have b: "b < ?n" "parent (?h b) = Ref r" "color (?h b) = RED" "below ?h r b"
    by (auto elim!: right_ok_cases)
  have ne: "b \<noteq> ?n" "r \<noteq> ?n" "r \<noteq> b" "NIL_LEAF \<noteq> ?n"
    using b D(2,3) below_neq[OF b(4)] by auto
  obtain l where l: "left (?h r) = Ref l" using chain_left_ref[OF D(6)] by blast
  define h3 where "h3 = attach v b (Some ''L'') ?n ?h"
  have h3: "h3 = ?h(?n := new_node v RED (Ref b), b := (?h b)\<lparr>left := Ref ?n\<rparr>)"
    unfolding h3_def by (rule attach_L[OF ne(1)])
  have "try_rebalance ?n h3 = (Inl TypeError, h3)"
  proof (rule try_rebalance_red_uncle[of _ _ b r v vb l b])
    show "parent (h3 ?n) = Ref b" "color (h3 ?n) = RED" "nvalue (h3 ?n) = Some v"
      using ne by (simp_all add: h3 new_node_def)
    show "parent (h3 b) = Ref r" "color (h3 b) = RED" "nvalue (h3 b) = Some vb"
      "nvalue (h3 b) \<noteq> None" "color (h3 b) = RED"
      using ne b vb by (simp_all add: h3)
    show "left (h3 r) = Ref l" using ne l by (simp add: h3)
    show "(if v < vb then right (h3 r) else left (h3 r)) = Ref b"
      using ne rb vb by (simp add: h3)
    show "nvalue (h3 NIL_LEAF) = None" using ne rb D(1) by (simp add: h3)
  qed
  then show ?thesis by (simp add: h3_def)
qed

text \<open>
  The new node becomes the right child of the right leaf while the root has a left
  child: the uncle is that Red child, and the recolour call raises.
\<close>
lemma raise_below_right_leaf_R:
  assumes sh: "shape s (a # as)" and rt: "root s = Ref r"
    and rb: "right (heap s r) = Ref b" "b \<noteq> NIL_LEAF"
    and vb: "nvalue (heap s b) = Some vb" "vb < v"
  shows "try_rebalance (nxt s) (attach v b (Some ''R'') (nxt s) (heap s)) =
           (Inl TypeError, attach v b (Some ''R'') (nxt s) (heap s))"
proof -
  let ?h = "heap s" and ?n = "nxt s"
  note D = shape_rootD[OF sh rt]
  from D(7) rb have b: "b < ?n" "parent (?h b) = Ref r" "color (?h b) = RED" "below ?h r b"
    by (auto elim!: right_ok_cases)
  from D(6) have a: "left (?h r) = Ref a" "a < ?n" "color (?h a) = RED" "below ?h a r"
    by auto
  have ne: "b \<noteq> ?n" "r \<noteq> ?n" "r \<noteq> b" "NIL_LEAF \<noteq> ?n" "a \<noteq> ?n" "a \<noteq> b"
    using b a D(2,3) below_neq[OF b(4)] below_neq[OF below_trans[OF a(4) b(4)]] by auto
  define h3 where "h3 = attach v b (Some ''R'') ?n ?h"
  have h3: "h3 = ?h(?n := new_node v RED (Ref b), b := (?h b)\<lparr>right := Ref ?n\<rparr>)"
    unfolding h3_def by (rule attach_R[OF ne(1)])
  have "try_rebalance ?n h3 = (Inl TypeError, h3)"
  proof (rule try_rebalance_red_uncle[of _ _ b r v vb a a])
    show "parent (h3 ?n) = Ref b" "color (h3 ?n) = RED" "nvalue (h3 ?n) = Some v"
      using ne by (simp_all add: h3 new_node_def)
    show "parent (h3 b) = Ref r" "color (h3 b) = RED" "nvalue (h3 b) = Some vb"
      using ne b vb by (simp_all add: h3)
    show "left (h3 r) = Ref a" using ne a by (simp add: h3)
    show "(if v < vb then right (h3 r) else left (h3 r)) = Ref a"
      using ne a vb by (simp add: h3)
    show "nvalue (h3 a) \<noteq> None" "color (h3 a) = RED"
      using ne a by (auto simp: h3 dest: belowD)
    show "nvalue (h3 NIL_LEAF) = None" using ne rb D(1) by (simp add: h3)
  qed
  then show ?thesis by (simp add: h3_def)
qed

text \<open>
  The new node becomes the right child of the right leaf and the root has no left
  child: \<open>_left_rotation\<close> runs and cuts the leaf off the root.
\<close>
lemma shape_rotate_left:
  assumes sh: "shape s []" and rt: "root s = Ref r"
    and rb: "right (heap s r) = Ref b" "b \<noteq> NIL_LEAF"
    and vb: "nvalue (heap s b) = Some vb" "vb < v"
    and tr: "try_rebalance (nxt s) (attach v b (Some ''R'') (nxt s) (heap s)) = (res, h4)"
  shows "res = Inr () \<and> shape (s\<lparr>heap := h4, nxt := nxt s + 1, count := c\<rparr>) []"
proof -
  let ?h = "heap s" and ?n = "nxt s"
  note D = shape_rootD[OF sh rt]
  from D(7) rb have b: "b < ?n" "parent (?h b) = Ref r" "color (?h b) = RED" "below ?h r b"
    "left (?h b) = Ref NIL_LEAF"
    by (auto elim!: right_ok_cases)
  from D(6) have lr: "left (?h r) = Ref NIL_LEAF" by simp
  have ne: "b \<noteq> ?n" "r \<noteq> ?n" "r \<noteq> b" "NIL_LEAF \<noteq> ?n"
    using b D(2,3) below_neq[OF b(4)] by auto
  define h3 where "h3 = attach v b (Some ''R'') ?n ?h"
  have h3: "h3 = ?h(?n := new_node v RED (Ref b), b := (?h b)\<lparr>right := Ref ?n\<rparr>)"
    unfolding h3_def by (rule attach_R[OF ne(1)])
  have "\<exists>h'. try_rebalance ?n h3 = (Inr (), h')
           \<and> (\<forall>a. a \<noteq> b \<longrightarrow> a \<noteq> r \<longrightarrow> h' a = h3 a)
           \<and> h' r = (h3 r)\<lparr>right := Ref NIL_LEAF, color := RED\<rparr>"
  proof (rule try_rebalance_RR[of _ _ b r v vb])
    show "parent (h3 ?n) = Ref b" "color (h3 ?n) = RED" "nvalue (h3 ?n) = Some v"
      using ne by (simp_all add: h3 new_node_def)
    show "parent (h3 b) = Ref r" "color (h3 b) = RED" "nvalue (h3 b) = Some vb"
      "left (h3 b) = Ref NIL_LEAF"
      using ne b vb by (simp_all add: h3)
    show "left (h3 r) = Ref NIL_LEAF" using ne lr by (simp add: h3)
    show "nvalue (h3 NIL_LEAF) = None" using ne rb D(1) by (simp add: h3)
    show "\<not> v < vb" using vb by simp
    show "r \<noteq> NIL_LEAF" "b \<noteq> NIL_LEAF" "?n \<noteq> NIL_LEAF" "?n \<noteq> r" "?n \<noteq> b" "r \<noteq> b"
      using ne D rb by auto
  qed
  with tr have res: "res = Inr ()" and h4: "\<forall>a. a \<noteq> b \<longrightarrow> a \<noteq> r \<longrightarrow> h4 a = h3 a"
    "h4 r = (h3 r)\<lparr>right := Ref NIL_LEAF, color := RED\<rparr>"
    by (auto simp: h3_def)
  have h3r: "h3 r = ?h r" using ne by (simp add: h3)
  have nil4: "nvalue (h4 NIL_LEAF) = None"
    using h4(1) ne rb D(1,8) by (simp add: h3)
  have "shape (s\<lparr>heap := h4, nxt := ?n + 1, count := c\<rparr>) []"
    by (rule shapeI[of _ r])
      (use rt D nil4 lr in \<open>simp_all add: h4(2) h3r right_ok_def\<close>)
  with res show ?thesis by simp
qed

text \<open>
  The new node becomes the right child of a node of the spine: the uncle is read from
  \<open>grandfather.left\<close>, which is the Red parent itself, and the recolour call raises.
\<close>
lemma raise_right_of_spine:
  assumes sh: "shape s as" and rt: "root s = Ref r"
    and q: "q \<in> set as" and vq: "nvalue (heap s q) = Some vq" "vq < v"
  shows "try_rebalance (nxt s) (attach v q (Some ''R'') (nxt s) (heap s)) =
           (Inl TypeError, attach v q (Some ''R'') (nxt s) (heap s))"
proof -
  let ?h = "heap s" and ?n = "nxt s"
  note D = shape_rootD[OF sh rt]
  from chain_parent[OF D(6) q] obtain g where g: "g \<in> set (r # as)"
    "parent (?h q) = Ref g" "left (?h g) = Ref q" by blast
  have lt: "q < ?n" "g < ?n" using chain_less[OF D(6)] q g(1) D(3) by auto
  have red: "color (?h q) = RED" using chain_red[OF D(6) q] by simp
  have ne: "q \<noteq> ?n" "g \<noteq> ?n" "NIL_LEAF \<noteq> ?n" "q \<noteq> NIL_LEAF"
    using lt D(1,2) vq by auto
  define h3 where "h3 = attach v q (Some ''R'') ?n ?h"
  have h3: "h3 = ?h(?n := new_node v RED (Ref q), q := (?h q)\<lparr>right := Ref ?n\<rparr>)"
    unfolding h3_def by (rule attach_R[OF ne(1)])
  have lg: "left (h3 g) = Ref q" using ne g(3) by (auto simp: h3)
  have "try_rebalance ?n h3 = (Inl TypeError, h3)"
  proof (rule try_rebalance_red_uncle[of _ _ q g v vq q q])
    show "parent (h3 ?n) = Ref q" "color (h3 ?n) = RED" "nvalue (h3 ?n) = Some v"
      using ne by (simp_all add: h3 new_node_def)
    show "parent (h3 q) = Ref g" "color (h3 q) = RED" "nvalue (h3 q) = Some vq"
      "nvalue (h3 q) \<noteq> None" "color (h3 q) = RED"
      using ne g red vq by (simp_all add: h3)
    show "left (h3 g) = Ref q" by (rule lg)
    show "(if v < vq then right (h3 g) else left (h3 g)) = Ref q"
      using lg vq by simp
    show "nvalue (h3 NIL_LEAF) = None" using ne D(1) by (simp add: h3)
  qed
  then show ?thesis by (simp add: h3_def)
qed

text \<open>The new node becomes the left child of the root: nothing to rebalance.\<close>
lemma shape_attach_root_left:
  assumes sh: "shape s []" and rt: "root s = Ref r"
    and vr: "nvalue (heap s r) = Some vr" "v < vr"
    and tr: "try_rebalance (nxt s) (attach v r (Some ''L'') (nxt s) (heap s)) = (res, h4)"
  shows "res = Inr () \<and> shape (s\<lparr>heap := h4, nxt := nxt s + 1, count := c\<rparr>) [nxt s]"
proof -
  let ?h = "heap s" and ?n = "nxt s"
  note D = shape_rootD[OF sh rt]
  have rn: "r \<noteq> ?n" using D(3) by simp
  define h3 where "h3 = attach v r (Some ''L'') ?n ?h"
  have h3: "h3 = ?h(?n := new_node v RED (Ref r), r := (?h r)\<lparr>left := Ref ?n\<rparr>)"
    unfolding h3_def by (rule attach_L[OF rn])
  have "try_rebalance ?n h3 = (Inr (), h3)"
    by (rule try_rebalance_root_child[of _ _ r]) (use rn D(4) in \<open>simp_all add: h3 new_node_def\<close>)
  with tr have res: "res = Inr ()" and h4: "h4 = h3" by (simp_all add: h3_def)
  have ch: "chain h3 (?n + 1) r [?n]"
    using rn vr by (simp add: h3 new_node_def below_def)
  have ro: "right_ok h3 (?n + 1) r"
  proof (rule right_ok_frame[OF D(7)])
    fix b assume "right (?h r) = Ref b" "b \<noteq> NIL_LEAF"
    with D(7) have "b < ?n" "below ?h r b" by (auto elim!: right_ok_cases)
    then show "h3 b = ?h b" using below_neq[of ?h r b] by (auto simp: h3)
  qed (use rn in \<open>simp_all add: h3\<close>)
  have "shape (s\<lparr>heap := h4, nxt := ?n + 1, count := c\<rparr>) [?n]"
    by (rule shapeI[of _ r]) (use rt D rn ch ro vr in \<open>simp_all add: h4\<close>, simp_all add: h3)
  with res show ?thesis by simp
qed

text \<open>
  The new node goes below the only node of the spine while the root has a right leaf:
  that Red leaf is the uncle, and the recolour call raises.
\<close>
lemma raise_below_first_with_uncle:
  assumes sh: "shape s [q]" and rt: "root s = Ref r"
    and rb: "right (heap s r) = Ref b" "b \<noteq> NIL_LEAF"
    and vq: "nvalue (heap s q) = Some vq" "v < vq"
  shows "try_rebalance (nxt s) (attach v q (Some ''L'') (nxt s) (heap s)) =
           (Inl TypeError, attach v q (Some ''L'') (nxt s) (heap s))"
proof -
  let ?h = "heap s" and ?n = "nxt s"
  note D = shape_rootD[OF sh rt]
  from D(7) rb have b: "b < ?n" "parent (?h b) = Ref r" "color (?h b) = RED" "below ?h r b"
    by (auto elim!: right_ok_cases)
  from D(6) have a: "left (?h r) = Ref q" "q < ?n" "color (?h q) = RED" "below ?h q r"
    "parent (?h q) = Ref r"
    by auto
  have ne: "b \<noteq> ?n" "r \<noteq> ?n" "r \<noteq> b" "NIL_LEAF \<noteq> ?n" "q \<noteq> ?n" "q \<noteq> b" "q \<noteq> r"
    using b a D(2,3) below_neq[OF b(4)] below_neq[OF below_trans[OF a(4) b(4)]]
      below_neq[OF a(4)] by auto
  define h3 where "h3 = attach v q (Some ''L'') ?n ?h"
  have h3: "h3 = ?h(?n := new_node v RED (Ref q), q := (?h q)\<lparr>left := Ref ?n\<rparr>)"
    unfolding h3_def by (rule attach_L[OF ne(5)])
  have "try_rebalance ?n h3 = (Inl TypeError, h3)"
  proof (rule try_rebalance_red_uncle[of _ _ q r v vq q b])
    show "parent (h3 ?n) = Ref q" "color (h3 ?n) = RED" "nvalue (h3 ?n) = Some v"
      using ne by (simp_all add: h3 new_node_def)
    show "parent (h3 q) = Ref r" "color (h3 q) = RED" "nvalue (h3 q) = Some vq"
      using ne a vq by (simp_all add: h3)
    show "left (h3 r) = Ref q" using ne a by (simp add: h3)
    show "(if v < vq then right (h3 r) else left (h3 r)) = Ref b"
      using ne rb vq by (simp add: h3)
    show "nvalue (h3 b) \<noteq> None" "color (h3 b) = RED"
      using ne b by (auto simp: h3 dest: belowD)
    show "nvalue (h3 NIL_LEAF) = None" using ne rb D(1) a vq by (auto simp: h3)
  qed
  then show ?thesis by (simp add: h3_def)
qed

lemma chain_last_two:
  "chain h m p (as @ [g, q]) \<Longrightarrow> parent (h q) = Ref g \<and> left (h g) = Ref q"
  by (induction as arbitrary: p) auto

lemma spine_cases:
  obtains (empty) "as = []" | (one) q where "as = [q]"
  | (more) as' g q where "as = as' @ [g, q]"
proof (cases as rule: rev_cases)
  case Nil
  then show ?thesis by (rule empty)
next
  case (snoc bs q)
  show ?thesis
  proof (cases bs rule: rev_cases)
    case Nil
    with snoc show ?thesis by (intro one[of q]) simp
  next
    case (snoc cs g)
    with \<open>as = bs @ [q]\<close> show ?thesis by (intro more[of cs g q]) simp
  qed
qed

text \<open>
  The new node goes to the end of a non-empty spine and the uncle is the sentinel:
  \<open>_right_rotation\<close> runs with \<open>X\<close> = \<open>parent.right\<close> = the sentinel, writes the
  sentinel's links and turns the grandfather Red; the spine is one node longer.
\<close>
lemma shape_extend_spine:
  assumes sh: "shape s as" and rt: "root s = Ref r"
    and ne_as: "as \<noteq> []" and q: "q = last as"
    and g: "parent (heap s q) = Ref g" "left (heap s g) = Ref q" "g \<in> set (r # as)"
      "right (heap s g) = Ref NIL_LEAF"
    and vq: "nvalue (heap s q) = Some vq" "v < vq"
    and tr: "try_rebalance (nxt s) (attach v q (Some ''L'') (nxt s) (heap s)) = (res, h4)"
  shows "res = Inr () \<and> shape (s\<lparr>heap := h4, nxt := nxt s + 1, count := c\<rparr>) (as @ [nxt s])"
proof -
  let ?h = "heap s" and ?n = "nxt s"
  note D = shape_rootD[OF sh rt]
  have qin: "q \<in> set as" using ne_as q by simp
  have lastq: "last (r # as) = q" using ne_as q by simp
  have lq: "left (?h q) = Ref NIL_LEAF" using chain_last_left[OF D(6)] lastq by simp
  have q0: "q \<noteq> NIL_LEAF" using vq D(1) by auto
  have gq: "g \<noteq> q" using lq g(2) q0 by auto
  have lt: "\<forall>a \<in> set (r # as). a < ?n" using chain_less[OF D(6)] D(3) by auto
  have val: "\<forall>a \<in> set (r # as). nvalue (?h a) \<noteq> None"
    using chain_valued[OF D(6)] D(5) by auto
  have nz: "\<forall>a \<in> set (r # as). a \<noteq> NIL_LEAF" using val D(1) by auto
  have redq: "color (?h q) = RED" "right (?h q) = Ref NIL_LEAF"
    using chain_red[OF D(6) qin] by simp_all
  have ne: "q \<noteq> ?n" "g \<noteq> ?n" "NIL_LEAF \<noteq> ?n" "g \<noteq> NIL_LEAF" "r \<noteq> ?n" "r \<noteq> q"
    using lt nz g(3) qin D(2) chain_head_notin[OF D(6)] by auto
  define h3 where "h3 = attach v q (Some ''L'') ?n ?h"
  have h3: "h3 = ?h(?n := new_node v RED (Ref q), q := (?h q)\<lparr>left := Ref ?n\<rparr>)"
    unfolding h3_def by (rule attach_L[OF ne(1)])
  have "\<exists>h'. try_rebalance ?n h3 = (Inr (), h')
           \<and> (\<forall>a. a \<noteq> NIL_LEAF \<longrightarrow> a \<noteq> g \<longrightarrow> h' a = h3 a)
           \<and> h' g = (h3 g)\<lparr>color := RED\<rparr>
           \<and> nvalue (h' NIL_LEAF) = None"
  proof (rule try_rebalance_LL[of _ _ q g v vq])
    show "parent (h3 ?n) = Ref q" "color (h3 ?n) = RED" "nvalue (h3 ?n) = Some v"
      using ne by (simp_all add: h3 new_node_def)
    show "parent (h3 q) = Ref g" "color (h3 q) = RED" "nvalue (h3 q) = Some vq"
      "right (h3 q) = Ref NIL_LEAF"
      using ne g redq vq by (simp_all add: h3)
    show "left (h3 g) = Ref q" "right (h3 g) = Ref NIL_LEAF"
      using ne gq g by (simp_all add: h3)
    show "nvalue (h3 NIL_LEAF) = None" using ne q0 D(1) by (simp add: h3)
    show "v < vq" by (rule vq(2))
    show "g \<noteq> NIL_LEAF" "?n \<noteq> NIL_LEAF" "?n \<noteq> g" using ne by auto
  qed
  with tr have res: "res = Inr ()"
    and h4: "\<And>a. a \<noteq> NIL_LEAF \<Longrightarrow> a \<noteq> g \<Longrightarrow> h4 a = h3 a"
    "h4 g = (h3 g)\<lparr>color := RED\<rparr>" "nvalue (h4 NIL_LEAF) = None"
    by (auto simp: h3_def)
  have h3g: "h3 g = ?h g" using ne gq by (simp add: h3)
  have h3q: "h3 q = (?h q)\<lparr>left := Ref ?n\<rparr>" by (simp add: h3)
  have h3n: "h3 ?n = new_node v RED (Ref q)" using ne by (simp add: h3)
  have h3o: "\<And>a. a \<noteq> ?n \<Longrightarrow> a \<noteq> q \<Longrightarrow> h3 a = ?h a" by (simp add: h3)
  have h4q: "h4 q = (?h q)\<lparr>left := Ref ?n\<rparr>" using h4(1)[of q] q0 gq h3q by simp
  have h4n: "h4 ?n = new_node v RED (Ref q)" using h4(1)[of ?n] ne h3n by auto
  have h4o: "\<And>a. a \<in> set (r # as) \<Longrightarrow> a \<noteq> q \<Longrightarrow> a \<noteq> g \<Longrightarrow> h4 a = ?h a"
    using h4(1) h3o lt nz by (metis nat_neq_iff)
  have h4g: "h4 g = (?h g)\<lparr>color := RED\<rparr>" using h4(2) h3g by simp
  have gred: "g \<in> set as \<Longrightarrow> color (?h g) = RED" using chain_red[OF D(6)] by simp
  have ch: "chain h4 (?n + 1) r (as @ [?n])"
  proof (rule chain_snoc[OF D(6)])
    show "\<forall>a\<in>set (r # as). nvalue (h4 a) = nvalue (?h a) \<and>
            (a \<noteq> last (r # as) \<longrightarrow> left (h4 a) = left (?h a))"
    proof
      fix a assume a: "a \<in> set (r # as)"
      show "nvalue (h4 a) = nvalue (?h a) \<and> (a \<noteq> last (r # as) \<longrightarrow> left (h4 a) = left (?h a))"
        using h4o[OF a] h4q h4g lastq by (cases "a = q"; cases "a = g") simp_all
    qed
    show "\<forall>a\<in>set as. parent (h4 a) = parent (?h a) \<and> right (h4 a) = right (?h a)
            \<and> color (h4 a) = color (?h a)"
    proof
      fix a assume a: "a \<in> set as"
      then have a': "a \<in> set (r # as)" by simp
      show "parent (h4 a) = parent (?h a) \<and> right (h4 a) = right (?h a)
            \<and> color (h4 a) = color (?h a)"
        using h4o[OF a'] h4q h4g gred a by (cases "a = q"; cases "a = g") simp_all
    qed
    show "left (h4 (last (r # as))) = Ref ?n" using lastq h4q by simp
    show "parent (h4 ?n) = Ref (last (r # as))" using lastq h4n by (simp add: new_node_def)
    show "left (h4 ?n) = Ref NIL_LEAF" "right (h4 ?n) = Ref NIL_LEAF" "color (h4 ?n) = RED"
      using h4n by (simp_all add: new_node_def)
    show "below h4 ?n (last (r # as))"
      using lastq h4n h4q vq by (simp add: below_def new_node_def)
  qed simp_all
  have rr: "h4 r = ?h r \<or> h4 r = (?h r)\<lparr>color := RED\<rparr>"
    using h4o[of r] h4g ne by (cases "r = g") simp_all
  have ro: "right_ok h4 (?n + 1) r"
  proof (rule right_ok_frame[OF D(7)])
    fix b assume rb: "right (?h r) = Ref b" "b \<noteq> NIL_LEAF"
    with D(7) have b: "b < ?n" "below ?h r b" by (auto elim!: right_ok_cases)
    have "b \<noteq> g"
    proof
      assume "b = g"
      with g(3) consider "b = r" | "b \<in> set as" by auto
      then show False
      proof cases
        case 1 then show False using below_neq[OF b(2)] by simp
      next
        case 2
        from below_trans[OF chain_below[OF D(6) 2] b(2)] show False
          using below_neq by blast
      qed
    qed
    moreover have "b \<noteq> q"
      using below_neq[OF below_trans[OF chain_below[OF D(6) qin] b(2)]] by simp
    ultimately show "h4 b = ?h b" using h4(1)[of b] h3o[of b] rb(2) b(1) by simp
  qed (use rr in auto)
  have "shape (s\<lparr>heap := h4, nxt := ?n + 1, count := c\<rparr>) (as @ [?n])"
  proof (rule shapeI[of _ r])
    show "parent (heap (s\<lparr>heap := h4, nxt := ?n + 1, count := c\<rparr>) r) = PyNone"
      using rr D(4) by auto
    show "nvalue (heap (s\<lparr>heap := h4, nxt := ?n + 1, count := c\<rparr>) r) \<noteq> None"
      using rr D(5) by auto
  qed (use rt D ch ro h4(3) in simp_all)
  with res show ?thesis by simp
qed

lemma shape_add:
  assumes sh: "shape s as" and ad: "add v s = Some (Inr rr, s')"
  shows "\<exists>as'. shape s' as'"
proof (cases "root s")
  case PyNone
  with sh ad have "shape s' []"
    by (auto simp: add_def shape_def new_node_def right_ok_def NIL_LEAF_def)
  then show ?thesis ..
next
  case (Ref r)
  let ?h = "heap s" and ?n = "nxt s"
  note R = shape_rootD[OF sh Ref]
  from find_parent_shape[OF sh Ref, of v] obtain q d where
    fp: "find_parent s v = Some (Inr (q, d))" and
    cs: "d = None
      \<or> (d = Some ''R'' \<and> q = r \<and> right (?h r) = Ref NIL_LEAF
           \<and> (\<exists>vr. nvalue (?h r) = Some vr \<and> vr < v))
      \<or> (right (?h r) = Ref q \<and> q \<noteq> NIL_LEAF
           \<and> (d = Some ''L'' \<and> (\<exists>vb. nvalue (?h q) = Some vb \<and> v < vb)
              \<or> d = Some ''R'' \<and> (\<exists>vb. nvalue (?h q) = Some vb \<and> vb < v)))
      \<or> (d = Some ''L'' \<and> q = last (r # as) \<and> (\<exists>vq. nvalue (?h q) = Some vq \<and> v < vq))
      \<or> (d = Some ''R'' \<and> q \<in> set as \<and> (\<exists>vq. nvalue (?h q) = Some vq \<and> vq < v))"
    by blast
  from cs consider
      (found) "d = None"
    | (B) vr where "d = Some ''R''" "q = r" "right (?h r) = Ref NIL_LEAF"
        "nvalue (?h r) = Some vr" "vr < v"
    | (CL) vb where "right (?h r) = Ref q" "q \<noteq> NIL_LEAF" "d = Some ''L''"
        "nvalue (?h q) = Some vb" "v < vb"
    | (CR) vb where "right (?h r) = Ref q" "q \<noteq> NIL_LEAF" "d = Some ''R''"
        "nvalue (?h q) = Some vb" "vb < v"
    | (D) vq where "d = Some ''L''" "q = last (r # as)" "nvalue (?h q) = Some vq" "v < vq"
    | (E) vq where "d = Some ''R''" "q \<in> set as" "nvalue (?h q) = Some vq" "vq < v"
    by blast
  then show ?thesis
  proof cases
    case found
    with ad Ref fp have "s' = s" by (simp add: add_def)
    with sh show ?thesis by blast
  next
    case B
    from add_attach_Inr[OF Ref fp[unfolded B(1)] ad] obtain h4 where
      tr: "try_rebalance ?n (attach v q (Some ''R'') ?n ?h) = (Inr (), h4)"
      and s': "s' = s\<lparr>heap := h4, nxt := ?n + 1, count := count s + 1\<rparr>" by blast
    from shape_attach_root_right[OF sh Ref B(3,4,5) tr[unfolded B(2)]] s'
    show ?thesis by blast
  next
    case CL
    from add_attach_Inr[OF Ref fp[unfolded CL(3)] ad] obtain h4 where
      tr: "try_rebalance ?n (attach v q (Some ''L'') ?n ?h) = (Inr (), h4)" by blast
    with raise_below_right_leaf_L[OF sh Ref CL(1,2,4,5)] show ?thesis by simp
  next
    case CR
    from add_attach_Inr[OF Ref fp[unfolded CR(3)] ad] obtain h4 where
      tr: "try_rebalance ?n (attach v q (Some ''R'') ?n ?h) = (Inr (), h4)"
      and s': "s' = s\<lparr>heap := h4, nxt := ?n + 1, count := count s + 1\<rparr>" by blast
    show ?thesis
    proof (cases as)
      case Nil
      from shape_rotate_left[OF sh[unfolded Nil] Ref CR(1,2,4,5) tr] s'
      show ?thesis by blast
    next
      case (Cons a as')
      from raise_below_right_leaf_R[OF sh[unfolded Cons] Ref CR(1,2,4,5)] tr
      show ?thesis by simp
    qed
  next
    case D
    from add_attach_Inr[OF Ref fp[unfolded D(1)] ad] obtain h4 where
      tr: "try_rebalance ?n (attach v q (Some ''L'') ?n ?h) = (Inr (), h4)"
      and s': "s' = s\<lparr>heap := h4, nxt := ?n + 1, count := count s + 1\<rparr>" by blast
    show ?thesis
    proof (cases as rule: spine_cases)
      case empty
      with D(2) have qr: "q = r" by simp
      from shape_attach_root_left[OF sh[unfolded empty] Ref D(3)[unfolded qr] D(4) tr[unfolded qr]] s'
      show ?thesis by blast
    next
      case (one q')
      with D(2) have qq: "q = q'" by simp
      from R(6) one qq have pq: "parent (?h q) = Ref r" "left (?h r) = Ref q" by auto
      from R(7) show ?thesis
      proof (cases rule: right_ok_cases)
        case nil
        have "shape (s\<lparr>heap := h4, nxt := ?n + 1, count := count s + 1\<rparr>) (as @ [?n])"
          using shape_extend_spine[OF sh Ref _ _ pq _ nil D(3,4) tr] one qq by simp
        with s' show ?thesis by blast
      next
        case (leaf b)
        from raise_below_first_with_uncle[OF sh[unfolded one] Ref leaf(1,2) D(3)[unfolded qq] D(4)] tr qq
        show ?thesis by simp
      qed
    next
      case (more as' g q')
      with D(2) have qq: "q = q'" by simp
      from chain_last_two[OF R(6)[unfolded more]] qq
      have pq: "parent (?h q) = Ref g" "left (?h g) = Ref q" by auto
      have gin: "g \<in> set as" using more by simp
      have rg: "right (?h g) = Ref NIL_LEAF" using chain_red[OF R(6) gin] by simp
      have "shape (s\<lparr>heap := h4, nxt := ?n + 1, count := count s + 1\<rparr>) (as @ [?n])"
        using shape_extend_spine[OF sh Ref _ _ pq _ rg D(3,4) tr] more qq by simp
      with s' show ?thesis by blast
    qed
  next
    case E
    from add_attach_Inr[OF Ref fp[unfolded E(1)] ad] obtain h4 where
      tr: "try_rebalance ?n (attach v q (Some ''R'') ?n ?h) = (Inr (), h4)" by blast
    with raise_right_of_spine[OF sh Ref E(2,3,4)] show ?thesis by simp
  qed
qed

lemma shape_init: "shape init []"
  by (simp add: shape_def init_def nil_node_def NIL_LEAF_def)

lemma shape_adds:
  "shape s as \<Longrightarrow> adds vs s = Some (Inr s') \<Longrightarrow> \<exists>as'. shape s' as'"
proof (induction vs arbitrary: s as)
  case Nil
  then show ?case by auto
next
  case (Cons v vs)
  from Cons.prems(2) obtain rr s1 where 1: "add v s = Some (Inr rr, s1)"
    and 2: "adds vs s1 = Some (Inr s')"
    by (auto split: option.splits sum.splits prod.splits)
  from shape_add[OF Cons.prems(1) 1] obtain as1 where "shape s1 as1" ..
  from Cons.IH[OF this 2] show ?case .
qed

subsection \<open>The traversal of such a store\<close>

lemma node_iter_leaf:
  assumes "nvalue (h NIL_LEAF) = None" "left (h b) = Ref NIL_LEAF" "right (h b) = Ref NIL_LEAF"
  shows "node_iter h b = Some (Inr [nvalue (h b)])"
  using assms by (subst node_iter.simps) simp

lemma node_iter_chain:
  assumes "chain h m p as" and "nvalue (h NIL_LEAF) = None"
    and "if right (h p) = Ref NIL_LEAF then ys = []
         else \<exists>b. right (h p) = Ref b \<and> nvalue (h b) \<noteq> None \<and> node_iter h b = Some (Inr ys)"
  shows "node_iter h p = Some (Inr (map (\<lambda>a. nvalue (h a)) (rev as) @ [nvalue (h p)] @ ys))"
  using assms
proof (induction as arbitrary: p ys)
  case Nil
  then show ?case
    by (subst node_iter.simps) (auto split: if_splits)
next
  case (Cons a as)
  from Cons.prems(1) have a: "left (h p) = Ref a" "nvalue (h a) \<noteq> None"
    "right (h a) = Ref NIL_LEAF" "chain h m a as"
    by (auto dest: belowD)
  have IH: "node_iter h a = Some (Inr (map (\<lambda>a. nvalue (h a)) (rev as) @ [nvalue (h a)] @ []))"
    by (rule Cons.IH[OF a(4) Cons.prems(2)]) (simp add: a(3))
  show ?case
    using a(1,2) IH Cons.prems(2,3)
    by (subst node_iter.simps) (auto split: if_splits)
qed

lemma chain_values_sorted:
  "chain h m p as \<Longrightarrow> nvalue (h p) = Some vp \<Longrightarrow>
     \<exists>xs. map (\<lambda>a. nvalue (h a)) (rev as) = map Some xs \<and> sorted xs \<and> distinct xs
          \<and> (\<forall>x \<in> set xs. x < vp)"
proof (induction as arbitrary: p vp)
  case Nil
  then show ?case by simp
next
  case (Cons a as)
  from Cons.prems obtain va where va: "nvalue (h a) = Some va" "va < vp" "chain h m a as"
    by (auto dest: belowD)
  from Cons.IH[OF va(3) va(1)] obtain xs where
    xs: "map (\<lambda>a. nvalue (h a)) (rev as) = map Some xs" "sorted xs" "distinct xs"
    "\<forall>x \<in> set xs. x < va" by blast
  show ?case
  proof (intro exI[of _ "xs @ [va]"] conjI)
    show "map (\<lambda>a. nvalue (h a)) (rev (a # as)) = map Some (xs @ [va])"
      using xs(1) va(1) by simp
    show "sorted (xs @ [va])" using xs(2,4) by (auto simp: sorted_append less_imp_le)
    show "distinct (xs @ [va])" using xs(3,4) by auto
    show "\<forall>x\<in>set (xs @ [va]). x < vp" using xs(4) va(2) by auto
  qed
qed

lemma shape_traversal_sorted:
  assumes sh: "shape s as"
  shows "\<exists>xs. tree_iter s = Some (Inr (map Some xs)) \<and> sorted xs \<and> distinct xs"
proof (cases "root s")
  case PyNone
  then have "tree_iter s = Some (Inr (map Some []))" by (simp add: tree_iter_def)
  then show ?thesis by (intro exI[of _ "[]"]) simp
next
  case (Ref r)
  let ?h = "heap s"
  note R = shape_rootD[OF sh Ref]
  from R(5) obtain vr where vr: "nvalue (?h r) = Some vr" by blast
  from chain_values_sorted[OF R(6) vr] obtain xs where
    xs: "map (\<lambda>a. nvalue (?h a)) (rev as) = map Some xs" "sorted xs" "distinct xs"
    "\<forall>x \<in> set xs. x < vr" by blast
  from R(7) show ?thesis
  proof (cases rule: right_ok_cases)
    case nil
    have "node_iter ?h r = Some (Inr (map (\<lambda>a. nvalue (?h a)) (rev as) @ [nvalue (?h r)] @ []))"
      by (rule node_iter_chain[OF R(6) R(1)]) (simp add: nil)
    then have "tree_iter s = Some (Inr (map Some (xs @ [vr])))"
      using Ref xs(1) vr by (simp add: tree_iter_def)
    moreover have "sorted (xs @ [vr])" "distinct (xs @ [vr])"
      using xs(2,3,4) by (auto simp: sorted_append less_imp_le)
    ultimately show ?thesis by blast
  next
    case (leaf b)
    from belowD[OF leaf(8)] vr obtain vb where vb: "nvalue (?h b) = Some vb" "vr < vb" by auto
    have it: "node_iter ?h b = Some (Inr [nvalue (?h b)])"
      by (rule node_iter_leaf[OF R(1) leaf(5,6)])
    have "node_iter ?h r =
            Some (Inr (map (\<lambda>a. nvalue (?h a)) (rev as) @ [nvalue (?h r)] @ [nvalue (?h b)]))"
      by (rule node_iter_chain[OF R(6) R(1)]) (use leaf(1,2) vb it in simp)
    then have "tree_iter s = Some (Inr (map Some (xs @ [vr, vb])))"
      using Ref xs(1) vr vb by (simp add: tree_iter_def)
    moreover have "sorted (xs @ [vr, vb])" "distinct (xs @ [vr, vb])"
      using xs(2,3,4) vb(2) by (auto simp: sorted_append less_imp_le)
    ultimately show ?thesis by blast
  qed
qed

lemma traversal_sorted_when_all_return:
  "adds vs init = Some (Inr s) \<Longrightarrow>
     \<exists>xs. tree_iter s = Some (Inr (map Some xs)) \<and> sorted xs \<and> distinct xs"
  using shape_adds[OF shape_init] shape_traversal_sorted by blast

section \<open>A store with a cycle\<close>

lemma inner_find_cycle_aux:
  assumes cyc: "nvalue (h a) = Some va" "va < v" "right (h a) = Ref b"
               "nvalue (h b) = Some vb" "vb < v" "right (h b) = Ref c"
               "nvalue (h c) = Some vc" "v < vc" "left (h c) = Ref a"
    and res: "inner_find h' v' p = Some res"
  shows "\<not> (h' = h \<and> v' = v \<and> (p = a \<or> p = b \<or> p = c))"
proof (rule inner_find.raw_induct
    [where P = "\<lambda>h' v' p res. \<not> (h' = h \<and> v' = v \<and> (p = a \<or> p = b \<or> p = c))", OF _ res],
    goal_cases)
  case (1 f h' v' p res)
  note IH = 1(1) and body = 1(2)
  show ?case
  proof
    assume A: "h' = h \<and> v' = v \<and> (p = a \<or> p = b \<or> p = c)"
    then consider "p = a" | "p = b" | "p = c" by blast
    then show False
    proof cases
      case 1
      with A cyc body have "f h v b = Some res" by (simp split: if_splits)
      with IH[of h v b res] show False by simp
    next
      case 2
      with A cyc body have "f h v c = Some res" by (simp split: if_splits)
      with IH[of h v c res] show False by simp
    next
      case 3
      with A cyc body have "f h v a = Some res" by (simp split: if_splits)
      with IH[of h v a res] show False by simp
    qed
  qed
qed

lemma inner_find_cycle:
  assumes "nvalue (h a) = Some va" "va < v" "right (h a) = Ref b"
          "nvalue (h b) = Some vb" "vb < v" "right (h b) = Ref c"
          "nvalue (h c) = Some vc" "v < vc" "left (h c) = Ref a"
  shows "inner_find h v c = None"
proof (cases "inner_find h v c")
  case None
  then show ?thesis .
next
  case (Some res)
  from inner_find_cycle_aux[OF assms Some] show ?thesis by simp
qed

lemma add_found_is_noop:
  "root s = Ref r \<Longrightarrow> find_parent s v = Some (Inr (p, None)) \<Longrightarrow> add v s = Some (Inr PyNone, s)"
  by (simp add: add_def)

section \<open>Evaluating the code on concrete calls\<close>

lemmas eval_defs =
  add_def attach_def init_def find_parent_def inner_find.simps new_node_def NIL_LEAF_def nil_node_def
  try_rebalance_def Let_def py_eq_def RBNode_eq_def left_rotation_def right_rotation_def
  seq_def skip_def set_left_def set_right_def set_color_def tree_iter_def node_iter.simps

text \<open>\<open>self.root\<close> is assigned only while the tree is empty.\<close>

lemma root_never_reassigned:
  "root s = Ref r \<Longrightarrow> add v s = Some (res, s') \<Longrightarrow> root s' = Ref r"
  by (auto simp: add_def split: option.splits sum.splits prod.splits if_splits)

text \<open>
  Insert 10, 20, 10: the third call finds 10 at the root and changes nothing.
\<close>

lemma scenario_10_20_10:
  "\<exists>s. adds [10, 20, 10] init = Some (Inr s) \<and> count s = 2
       \<and> tree_iter s = Some (Inr [Some 10, Some 20])"
  by (simp add: eval_defs)

text \<open>
  In every state reached from the empty tree by a script of \<open>add\<close> calls that all
  returned, a call of \<open>add\<close> with any value returns or raises. (The model has no
  recursion limit; the descent is as deep as the left spine is long.)
\<close>

lemma add_terminates_when_all_returned:
  "adds vs init = Some (Inr s) \<Longrightarrow> \<exists>res. add v s = Some res"
  using shape_adds[OF shape_init] add_returns_on_shape by blast

lemma add_terminates_after_30_20_10:
  "\<exists>s. adds [30, 20, 10] init = Some (Inr s) \<and> (\<exists>res. add 5 s = Some res)"
proof -
  obtain s where s: "adds [30, 20, 10] init = Some (Inr s)"
    by (simp add: eval_defs)
  from add_terminates_when_all_returned[OF s, of 5] s show ?thesis by blast
qed

section \<open>The claims\<close>

text \<open>
  C1. Insert 10, 30, 20 into the empty tree. The specification expects the third call to
  finish with root 20 (Black) over 10 and 30 (Red). On the code the third call raises:
  the new node 20 is the left child of 30, so the uncle is read from
  \<open>grandfather.right\<close>, which is the Red parent 30 itself; the code takes the recolour
  branch, and \<open>self._recolor(grandfather)\<close> raises \<open>TypeError\<close>. The node 20 is already
  attached (the traversal yields 10, 20, 30), the root is still the Black 10 with 30 as
  right child and 20 below it, and \<open>count\<close> is still 2.
\<close>

theorem C1_insert_10_30_20_raises:
  "\<exists>s. adds [10, 30, 20] init = Some (Inl (TypeError, s))
     \<and> root s = Ref 1 \<and> nvalue (heap s 1) = Some 10 \<and> color (heap s 1) = BLACK
     \<and> left (heap s 1) = Ref NIL_LEAF \<and> right (heap s 1) = Ref 2
     \<and> nvalue (heap s 2) = Some 30 \<and> color (heap s 2) = RED
     \<and> left (heap s 2) = Ref 3
     \<and> nvalue (heap s 3) = Some 20 \<and> color (heap s 3) = RED
     \<and> count s = 2 \<and> tree_iter s = Some (Inr [Some 10, Some 20, Some 30])"
  by (simp add: eval_defs)

text \<open>
  C2. Insert 10, 20, 30 into the empty tree. All three calls return. The left rotation
  makes 20 Black with children 10 and 30, but \<open>self.root\<close> is assigned nowhere after the
  first call (\<open>root_never_reassigned\<close>): the root is still the node 10, now Red and
  with two sentinel children, so the traversal yields only 10 while \<open>count\<close> is 3.
\<close>

theorem C2_insert_10_20_30_root_not_updated:
  "\<exists>s. adds [10, 20, 30] init = Some (Inr s)
     \<and> root s = Ref 1 \<and> nvalue (heap s 1) = Some 10 \<and> color (heap s 1) = RED
     \<and> left (heap s 1) = Ref NIL_LEAF \<and> right (heap s 1) = Ref NIL_LEAF
     \<and> nvalue (heap s 2) = Some 20 \<and> color (heap s 2) = BLACK
     \<and> left (heap s 2) = Ref 1 \<and> right (heap s 2) = Ref 3
     \<and> nvalue (heap s 3) = Some 30 \<and> color (heap s 3) = RED
     \<and> tree_iter s = Some (Inr [Some 10]) \<and> count s = 3"
  by (simp add: eval_defs)

text \<open>
  C3. Insert 30, 20, 10 into the empty tree. All three calls return. The call
  \<open>_right_rotation(node, parent.right, parent, grandfather, uncle)\<close> passes
  \<open>parent.right\<close>, the sentinel, where the rotation expects the node to promote: the
  four link assignments leave the real nodes as they were (and write into the
  sentinel), and the recolouring turns the grandfather 30 Red. The tree is the chain
  30 (Red, root), 20 (Red), 10 (Red).
\<close>

theorem C3_insert_30_20_10_no_rotation:
  "\<exists>s. adds [30, 20, 10] init = Some (Inr s)
     \<and> root s = Ref 1 \<and> nvalue (heap s 1) = Some 30 \<and> color (heap s 1) = RED
     \<and> left (heap s 1) = Ref 2 \<and> right (heap s 1) = Ref NIL_LEAF
     \<and> nvalue (heap s 2) = Some 20 \<and> color (heap s 2) = RED
     \<and> left (heap s 2) = Ref 3 \<and> right (heap s 2) = Ref NIL_LEAF
     \<and> nvalue (heap s 3) = Some 10 \<and> color (heap s 3) = RED
     \<and> left (heap s NIL_LEAF) = Ref 3 \<and> right (heap s NIL_LEAF) = Ref 1"
  by (simp add: eval_defs)

text \<open>
  C4. Insert 20, 10, 30, 5: the new node 5 is a Red child of the Red node 10, and the
  uncle 30 is Red. The specification expects a recolouring. On the code the recolour
  branch is the call \<open>self._recolor(grandfather)\<close>, which passes two arguments to a
  function of one parameter: \<open>TypeError\<close>, for every store and every grandfather, and
  nothing is recoloured: parent 10 and uncle 30 are still Red.
\<close>

theorem C4_red_uncle_raises:
  "(\<forall>g h. recolor [TreeObj, NodeObj (Ref g)] h = (Inl TypeError, h))
   \<and> (\<exists>s. adds [20, 10, 30, 5] init = Some (Inl (TypeError, s))
        \<and> root s = Ref 1 \<and> color (heap s 1) = BLACK
        \<and> left (heap s 1) = Ref 2 \<and> nvalue (heap s 2) = Some 10 \<and> color (heap s 2) = RED
        \<and> right (heap s 1) = Ref 3 \<and> nvalue (heap s 3) = Some 30 \<and> color (heap s 3) = RED
        \<and> left (heap s 2) = Ref 4 \<and> nvalue (heap s 4) = Some 5 \<and> color (heap s 4) = RED)"
  by (simp add: eval_defs)

text \<open>
  C5. After the three returning calls add 30, add 20, add 10 the root is Red, its left
  child 20 is Red, and the left child 10 of that one is Red: the root is not Black and
  there are two red-red edges.
\<close>

theorem C5_invariants_broken_after_30_20_10:
  "\<exists>s. adds [30, 20, 10] init = Some (Inr s)
     \<and> (\<exists>r c d. root s = Ref r \<and> color (heap s r) = RED
          \<and> left (heap s r) = Ref c \<and> color (heap s c) = RED \<and> nvalue (heap s c) \<noteq> None
          \<and> left (heap s c) = Ref d \<and> color (heap s d) = RED \<and> nvalue (heap s d) \<noteq> None)"
  by (simp add: eval_defs)

text \<open>
  C6. After the three returning calls add 10, add 20, add 30 the in-order traversal is
  the single value 10: the inserted values 20 and 30 are not yielded. (What is yielded
  after calls that all returned is sorted and without repetition,
  \<open>traversal_sorted_when_all_return\<close>; it is not the list of the inserted values.)
\<close>

theorem C6_traversal_loses_values:
  "\<exists>s. adds [10, 20, 30] init = Some (Inr s) \<and> tree_iter s = Some (Inr [Some 10])"
  by (simp add: eval_defs)

text \<open>
  C7. Inserting the same value twice is not the same as inserting it once: after add 10,
  add 20, add 30 (all return, \<open>count\<close> 3) the node 30 is not reachable from the root,
  so a second add 30 does not find it, attaches a new node, returns it and makes
  \<open>count\<close> 4; the traversal changes from 10 to 10, 30. (A value that the descent from
  the root does find is skipped without any change: \<open>add_found_is_noop\<close>,
  \<open>scenario_10_20_10\<close>.)
\<close>

theorem C7_second_insert_of_30_not_a_noop:
  "\<exists>s3 s4. adds [10, 20, 30] init = Some (Inr s3)
      \<and> count s3 = 3 \<and> tree_iter s3 = Some (Inr [Some 10])
      \<and> add 30 s3 = Some (Inr (Ref 4), s4)
      \<and> count s4 = 4 \<and> tree_iter s4 = Some (Inr [Some 10, Some 30])"
  by (simp add: eval_defs)

text \<open>
  C8. A call of \<open>add\<close> does not terminate in every state that earlier calls can leave.
  add 50 and add 30 return. add 40 attaches node 40 as right child of 30 and then raises
  \<open>TypeError\<close> in the recolour call; the node stays attached. add 20 returns: it is the
  LL case, \<open>_right_rotation\<close> receives \<open>parent.right\<close>, which is now node 40, as \<open>X\<close>
  and executes \<open>X.right = Y\<close>, that is \<open>40.right = 50\<close>. The store now has the cycle
  50, left 30, right 40, right 50. The descent of \<open>_find_parent\<close> for 45 goes 50, 30,
  40, 50, ... and never reaches a sentinel: the call does not return. (CPython cuts the
  recursion off with \<open>RecursionError\<close>; the model has no recursion limit. After calls
  that all returned, every call does terminate: \<open>add_terminates_when_all_returned\<close>.)
\<close>

theorem C8_add_after_caught_exception_loops:
  "\<exists>s2 s3 s4. adds [50, 30] init = Some (Inr s2)
      \<and> add 40 s2 = Some (Inl TypeError, s3)
      \<and> add 20 s3 = Some (Inr (Ref 4), s4)
      \<and> root s4 = Ref 1
      \<and> nvalue (heap s4 1) = Some 50 \<and> left (heap s4 1) = Ref 2
      \<and> nvalue (heap s4 2) = Some 30 \<and> right (heap s4 2) = Ref 3
      \<and> nvalue (heap s4 3) = Some 40 \<and> right (heap s4 3) = Ref 1
      \<and> add 45 s4 = None"
proof -
  obtain s2 s3 s4 where run: "adds [50, 30] init = Some (Inr s2)"
      "add 40 s2 = Some (Inl TypeError, s3)" "add 20 s3 = Some (Inr (Ref 4), s4)"
    and f: "root s4 = Ref 1"
      "nvalue (heap s4 2) = Some 30" "right (heap s4 2) = Ref 3"
      "nvalue (heap s4 3) = Some 40" "right (heap s4 3) = Ref 1"
      "nvalue (heap s4 1) = Some 50" "left (heap s4 1) = Ref 2"
    by (simp add: eval_defs)
  have "inner_find (heap s4) 45 1 = None"
    by (rule inner_find_cycle[OF f(2) _ f(3) f(4) _ f(5) f(6) _ f(7)]) simp_all
  then have "add 45 s4 = None" using f(1) by (simp add: add_def find_parent_def)
  with run f show ?thesis by blast
qed

text \<open>
  C9. The call that creates the root returns \<open>None\<close>, the same result as a call that
  finds its value already in the tree; only a call that attaches a node below an
  existing one returns the new node.
\<close>

theorem C9_first_add_returns_None:
  "(\<exists>s. add 10 init = Some (Inr PyNone, s) \<and> count s = 1
        \<and> add 10 s = Some (Inr PyNone, s)
        \<and> (\<exists>s'. add 20 s = Some (Inr (Ref 2), s')))"
  by (simp add: eval_defs)

text \<open>
  C10. After every sequence of \<open>add\<close> calls, also one in which calls raised and the
  caller went on, the sentinel \<open>NIL_LEAF\<close> is Black and has no value. (Its \<open>left\<close> and
  \<open>right\<close> attributes are written by \<open>_right_rotation\<close>, as the witness shows.)
\<close>

theorem C10_sentinel_stays_black_valueless:
  "adds_caught vs init = Some s \<Longrightarrow>
     color (heap s NIL_LEAF) = BLACK \<and> nvalue (heap s NIL_LEAF) = None"
  using sentinel_inv_adds_caught[OF sentinel_inv_init] by (auto simp: sentinel_inv_def)

theorem C10_sentinel_witness:
  "\<exists>s. adds_caught [30, 20, 10] init = Some s
     \<and> left (heap s NIL_LEAF) = Ref 3 \<and> right (heap s NIL_LEAF) = Ref 1
     \<and> color (heap s NIL_LEAF) = BLACK \<and> nvalue (heap s NIL_LEAF) = None"
proof -
  obtain s where s: "adds_caught [30, 20, 10] init = Some s"
    and l: "left (heap s NIL_LEAF) = Ref 3" "right (heap s NIL_LEAF) = Ref 1"
    by (simp add: eval_defs)
  from C10_sentinel_stays_black_valueless[OF s] s l show ?thesis by blast
qed

end
